theory Spec2Isabelle
  imports Complex_Main "HOL-Library.Word" "HOL-Library.Sublist"
begin

unbundle bit_operations_syntax

section \<open>Data model of the obfuscation layer (pkg/obfs/sudoku/conn.go)\<close>

type_synonym byte = "8 word"

text \<open>A codeword is Go's \<^verbatim>\<open>[4]byte\<close>: exactly four hint bytes.\<close>

type_synonym codeword = "byte \<times> byte \<times> byte \<times> byte"

fun hint :: "codeword \<Rightarrow> nat \<Rightarrow> byte" where
  "hint (a, b, c, d) i = (if i = 0 then a else if i = 1 then b else if i = 2 then c else d)"

datatype error =
    Panic
  | EOF
  | AesKeyTooShort
  | IvTooShort
  | BoostEncoderNotInitialized
  | BoostDecoderMissing

text \<open>
  The table type is declared outside the files at hand; the connection only reads the
  three fields below, so they are the record.
\<close>

record Table =
  EncodeTable :: "byte \<Rightarrow> codeword list"
  PaddingPool :: "byte list"
  IsASCII :: bool

subsection \<open>The random source\<close>

text \<open>
  \<^verbatim>\<open>math/rand\<close> is library code. A generator is the sequence of raw draws it is going to
  produce, so that a statement about every generator state is a statement about every
  list. \<^verbatim>\<open>Float32\<close> yields a fraction in [0,1), \<^verbatim>\<open>Intn n\<close> a number below \<open>n\<close> and
  panics for \<open>n = 0\<close>, \<^verbatim>\<open>Shuffle\<close> is the library's Fisher-Yates loop over \<^verbatim>\<open>Intn\<close>-like
  draws.
\<close>

type_synonym rng = "nat list"

definition rng_next :: "rng \<Rightarrow> nat \<times> rng" where
  "rng_next r = (case r of [] \<Rightarrow> (0, []) | x # xs \<Rightarrow> (x, xs))"

definition Float32 :: "rng \<Rightarrow> rat \<times> rng" where
  "Float32 r = (let (x, r') = rng_next r in (of_nat (x mod 2 ^ 24) / 2 ^ 24, r'))"

definition Intn :: "nat \<Rightarrow> rng \<Rightarrow> error + (nat \<times> rng)" where
  "Intn n r = (if n = 0 then Inl Panic else (let (x, r') = rng_next r in Inr (x mod n, r')))"

subsection \<open>The buffered reader and the stream ciphers\<close>

text \<open>
  The transport's inbound side is the list of chunks its successive reads are going to
  return; after the last chunk it reports end of file. \<open>buffered\<close> is what the
  \<^verbatim>\<open>bufio.Reader\<close> holds already, \<open>bufsize\<close> the size of its buffer.
\<close>

record bufio_Reader =
  buffered :: "byte list"
  incoming :: "byte list list"
  bufsize :: nat

definition IOBufferSize :: nat where
  "IOBufferSize = 32 * 1024"

text \<open>\<^verbatim>\<open>reader.Read(rawBuf)\<close> with a buffer of \<open>IOBufferSize\<close> bytes: the data and whether
  the read failed.\<close>

definition reader_Read :: "bufio_Reader \<Rightarrow> (byte list \<times> bool) \<times> bufio_Reader" where
  "reader_Read r =
     (if buffered r \<noteq> [] then
        ((take IOBufferSize (buffered r), False), r\<lparr>buffered := drop IOBufferSize (buffered r)\<rparr>)
      else (case incoming r of
              [] \<Rightarrow> (([], True), r)
            | c # cs \<Rightarrow> ((c, False), r\<lparr>incoming := cs\<rparr>)))"

text \<open>
  A \<^verbatim>\<open>cipher.Stream\<close> in CTR mode: the key and IV it was made from, the keystream they
  determine, and the number of keystream bytes used so far. The block cipher is library
  code and comes in as the function from key and IV to keystream.
\<close>

record cipher_Stream =
  stream_key :: "byte list"
  stream_iv :: "byte list"
  keystream :: "nat \<Rightarrow> byte"
  stream_pos :: nat

definition NewCTR :: "(byte list \<Rightarrow> byte list \<Rightarrow> nat \<Rightarrow> byte) \<Rightarrow> byte list \<Rightarrow> byte list \<Rightarrow> cipher_Stream" where
  "NewCTR aes key iv = \<lparr>stream_key = key, stream_iv = iv, keystream = aes key iv, stream_pos = 0\<rparr>"

fun xor_from :: "(nat \<Rightarrow> byte) \<Rightarrow> nat \<Rightarrow> byte list \<Rightarrow> byte list" where
  "xor_from ks n [] = []"
| "xor_from ks n (b # bs) = (b XOR ks n) # xor_from ks (Suc n) bs"

definition XORKeyStream :: "cipher_Stream \<Rightarrow> byte list \<Rightarrow> byte list \<times> cipher_Stream" where
  "XORKeyStream s src =
     (xor_from (keystream s) (stream_pos s) src, s\<lparr>stream_pos := stream_pos s + length src\<rparr>)"

subsection \<open>The connection\<close>

record Conn =
  table :: Table
  reader :: bufio_Reader
  written :: "byte list"
  recorder :: "byte list option"
  recording :: bool
  pendingData :: "byte list"
  hintBuf :: "byte list"
  rng :: rng
  paddingRate :: rat
  boostWrite :: bool
  boostRead :: bool
  boostASCII :: bool
  boostEnc :: "cipher_Stream option"
  boostDec :: "cipher_Stream option"
  encBitBuf :: "64 word"
  encBits :: nat
  decBitBuf :: "64 word"
  decBits :: nat

text \<open>\<open>written\<close> is the outbound side of the embedded \<^verbatim>\<open>net.Conn\<close>: every byte handed to
  its \<^verbatim>\<open>Write\<close> so far.\<close>

definition NewConn :: "byte list list \<Rightarrow> Table \<Rightarrow> int \<Rightarrow> int \<Rightarrow> bool \<Rightarrow> rng \<Rightarrow> Conn" where
  "NewConn c tbl pMin pMax record seed =
     (let (f, localRng) = Float32 seed;
          min = of_int pMin / 100;
          rngw = of_int (pMax - pMin) / 100;
          rate = min + f * rngw
      in \<lparr>table = tbl,
          reader = \<lparr>buffered = [], incoming = c, bufsize = IOBufferSize\<rparr>,
          written = [],
          recorder = (if record then Some [] else None),
          recording = record,
          pendingData = [],
          hintBuf = [],
          rng = localRng,
          paddingRate = rate,
          boostWrite = False,
          boostRead = False,
          boostASCII = False,
          boostEnc = None,
          boostDec = None,
          encBitBuf = 0,
          encBits = 0,
          decBitBuf = 0,
          decBits = 0\<rparr>)"

definition EnableBoost ::
  "(byte list \<Rightarrow> byte list \<Rightarrow> nat \<Rightarrow> byte) \<Rightarrow> bool \<Rightarrow> bool \<Rightarrow> byte list \<Rightarrow> byte list \<Rightarrow> bool \<Rightarrow> Conn
     \<Rightarrow> error + Conn" where
  "EnableBoost aes write read aesKey iv isASCII sc =
     (if length aesKey < 16 then Inl AesKeyTooShort
      else if length iv < 16 then Inl IvTooShort
      else
        (let block = take 16 aesKey;
             sc1 = (if write
                    then sc\<lparr>boostEnc := Some (NewCTR aes block (take 16 iv)),
                            encBitBuf := 0, encBits := 0,
                            boostWrite := True, boostASCII := isASCII\<rparr>
                    else sc);
             sc2 = (if read
                    then sc1\<lparr>boostDec := Some (NewCTR aes block (take 16 iv)),
                             decBitBuf := 0, decBits := 0,
                             boostRead := True, boostASCII := isASCII,
                             hintBuf := []\<rparr>
                    else sc1)
         in Inr sc2))"

definition StopRecording :: "Conn \<Rightarrow> Conn" where
  "StopRecording sc = sc\<lparr>recording := False, recorder := None\<rparr>"

text \<open>The receiver may be the nil pointer: \<open>None\<close>.\<close>

definition GetBufferedAndRecorded :: "Conn option \<Rightarrow> byte list" where
  "GetBufferedAndRecorded sco =
     (case sco of
        None \<Rightarrow> []
      | Some sc \<Rightarrow>
          (let recorded = (case recorder sc of None \<Rightarrow> [] | Some bs \<Rightarrow> bs);
               peeked = buffered (reader sc)
           in if length peeked > 0 then recorded @ peeked else recorded))"

text \<open>A small ASCII-mode table and a fresh connection over it, for concrete runs.\<close>

definition sample_table :: Table where
  "sample_table =
     \<lparr>EncodeTable = (\<lambda>b. [(0x41, 0x42, 0x43, 0x44)]), PaddingPool = [0x20, 0x21], IsASCII = True\<rparr>"

definition sample_conn :: Conn where
  "sample_conn = NewConn [] sample_table 0 100 False [2 ^ 23]"

subsection \<open>Boost carrier bytes\<close>

definition packBoostByte :: "Conn \<Rightarrow> byte \<Rightarrow> byte" where
  "packBoostByte sc bits =
     (if boostASCII sc then 0x40 OR (bits AND 0x3F)
      else (let high = push_bit 1 (bits AND 0x30);
                low = bits AND 0x0F
            in high OR low))"

definition unpackBoostByte :: "Conn \<Rightarrow> byte \<Rightarrow> byte" where
  "unpackBoostByte sc b =
     (if boostASCII sc then b AND 0x3F
      else drop_bit 1 (b AND 0x60) OR (b AND 0x0F))"

text \<open>The classifier at the head of the read loop of \<^verbatim>\<open>readBoost\<close>.\<close>

definition isPadding :: "Conn \<Rightarrow> byte \<Rightarrow> bool" where
  "isPadding sc b = (if boostASCII sc then b AND 0x40 = 0 else b AND 0x90 \<noteq> 0)"

section \<open>Carrier bytes are never padding, and unpacking inverts packing\<close>

lemma byte_eqI:
  assumes "\<And>n. n \<in> {0, 1, 2, 3, 4, 5, 6, 7} \<Longrightarrow> bit a n = bit b n"
  shows "a = (b :: byte)"
proof (rule bit_word_eqI)
  fix n assume "n < LENGTH(8)"
  then have "n \<in> {0, 1, 2, 3, 4, 5, 6, 7 :: nat}" by auto
  then show "bit a n = bit b n" by (rule assms)
qed

lemma bit_times2: "bit (a * 2 :: byte) n \<longleftrightarrow> n < 8 \<and> n \<noteq> 0 \<and> bit a (n - 1)"
  using bit_double_iff [of a n] by (simp add: mult.commute bit_simps)

lemma six_bits_mask: "v \<le> 0x3F \<Longrightarrow> v AND 0x3F = (v :: byte)"
proof -
  assume "v \<le> 0x3F"
  then have "unat v < 2 ^ 6" by (simp add: word_le_nat_alt)
  then have "take_bit 6 v = v"
    by (simp add: word_unat_eq_iff unsigned_take_bit_eq take_bit_nat_eq_self)
  moreover have "(0x3F :: byte) = mask 6" by (simp add: mask_eq_exp_minus_1)
  ultimately show ?thesis by (simp add: take_bit_eq_mask)
qed

lemma pack_ascii_bit6: "boostASCII sc \<Longrightarrow> packBoostByte sc v AND 0x40 \<noteq> 0"
  unfolding packBoostByte_def by simp

lemma pack_entropy_clear: "\<not> boostASCII sc \<Longrightarrow> packBoostByte sc v AND 0x90 = 0"
  unfolding packBoostByte_def Let_def
  by (simp, rule byte_eqI) (auto simp add: bit_simps bit_times2)

lemma pack_not_padding: "\<not> isPadding sc (packBoostByte sc v)"
  using pack_ascii_bit6 [of sc v] pack_entropy_clear [of sc v]
  by (simp add: isPadding_def)

lemma unpack_pack_mask: "unpackBoostByte sc (packBoostByte sc v) = v AND 0x3F"
proof (cases "boostASCII sc")
  case True
  then show ?thesis
    unfolding packBoostByte_def unpackBoostByte_def
    by (simp, intro byte_eqI) (auto simp add: bit_simps)
next
  case False
  then show ?thesis
    unfolding packBoostByte_def unpackBoostByte_def Let_def
    by (simp, intro byte_eqI) (auto simp add: bit_simps bit_times2)
qed

text \<open>
  Claim C8. For every 6-bit value \<open>v\<close>: in ASCII mode the packed byte has bit 6 set, in
  entropy mode it has bits 7 and 4 clear, so the classifier of the receiver does not take
  it for padding; and unpacking the packed byte gives \<open>v\<close> back, in both modes.
\<close>

theorem packBoostByte_classifier_roundtrip:
  assumes "v \<le> 0x3F"
  shows "(boostASCII sc \<longrightarrow> packBoostByte sc v AND 0x40 \<noteq> 0)
       \<and> (\<not> boostASCII sc \<longrightarrow> packBoostByte sc v AND 0x90 = 0)
       \<and> \<not> isPadding sc (packBoostByte sc v)
       \<and> unpackBoostByte sc (packBoostByte sc v) = v"
  using assms pack_ascii_bit6 [of sc v] pack_entropy_clear [of sc v]
    pack_not_padding [of sc v] unpack_pack_mask [of sc v]
  by (simp add: six_bits_mask)

theorem packBoostByte_classifier_roundtrip_witness:
  "(0x2A :: byte) \<le> 0x3F
   \<and> \<not> isPadding sample_conn (packBoostByte sample_conn 0x2A)
   \<and> unpackBoostByte sample_conn (packBoostByte sample_conn 0x2A) = 0x2A"
  using packBoostByte_classifier_roundtrip [of "0x2A" sample_conn] by simp

section \<open>Key derivation and the control connection's key (internal/tunnel)\<close>

text \<open>
  A Go string is a byte sequence, and so is a HOL \<open>string\<close>. SHA-256 is library code: it
  comes in as a function from bytes to digest, and a theorem that needs the digest to be
  the 32 bytes of \<^verbatim>\<open>[32]byte\<close> says so.
\<close>

definition bytes_of :: "string \<Rightarrow> byte list" where
  "bytes_of s = map of_char s"

definition DeriveControlKey :: "(byte list \<Rightarrow> byte list) \<Rightarrow> string \<Rightarrow> byte list" where
  "DeriveControlKey sha seed = sha (bytes_of (seed @ ''|hb-control''))"

definition DeriveBoostAESKey :: "(byte list \<Rightarrow> byte list) \<Rightarrow> string \<Rightarrow> byte list" where
  "DeriveBoostAESKey sha seed = sha (bytes_of (seed @ ''|hb-aes''))"

text \<open>
  The control connection. Its two callbacks are closures that change state outside the
  connection; that state is \<open>world\<close>, and a callback is a function on it (\<open>None\<close> for a nil
  callback). \<open>base\<close> is the inbound side of the embedded connection: the chunks its reads
  are going to return, then end of file.
\<close>

record 'h ControlConn =
  base :: "byte list list"
  hmacKey :: "byte list"
  handler :: "(byte \<Rightarrow> byte list \<Rightarrow> 'h \<Rightarrow> 'h) option"
  onData :: "(int \<Rightarrow> 'h \<Rightarrow> 'h) option"
  readBuf :: "byte list"
  dataBuf :: "byte list"
  world :: 'h

definition NewControlConn ::
  "byte list list \<Rightarrow> byte list \<Rightarrow> (byte \<Rightarrow> byte list \<Rightarrow> 'h \<Rightarrow> 'h) option \<Rightarrow> (int \<Rightarrow> 'h \<Rightarrow> 'h) option
     \<Rightarrow> 'h \<Rightarrow> 'h ControlConn" where
  "NewControlConn b key h od w =
     \<lparr>base = b, hmacKey = key, handler = h, onData = od, readBuf = [], dataBuf = [], world = w\<rparr>"

text \<open>
  Claim C7. The HMAC key the control connection holds is SHA-256 of the seed followed by
  \<open>|hb-control\<close>. The boost key derived from the seed is the whole 32-byte digest of the
  seed followed by \<open>|hb-aes\<close>; \<open>EnableBoost\<close> accepts it and keys the CTR streams of the
  directions it enables with the first 16 bytes of that digest.
\<close>

theorem derived_key_material:
  assumes "length (sha (bytes_of (seed @ ''|hb-aes''))) = 32"
    and "16 \<le> length iv"
  shows "hmacKey (NewControlConn b (DeriveControlKey sha seed) h od w)
           = sha (bytes_of (seed @ ''|hb-control''))
       \<and> (\<exists>sc'. EnableBoost aes wr rd (DeriveBoostAESKey sha seed) iv ascii sc = Inr sc'
            \<and> (wr \<longrightarrow> boostEnc sc'
                  = Some (NewCTR aes (take 16 (sha (bytes_of (seed @ ''|hb-aes'')))) (take 16 iv)))
            \<and> (rd \<longrightarrow> boostDec sc'
                  = Some (NewCTR aes (take 16 (sha (bytes_of (seed @ ''|hb-aes'')))) (take 16 iv))))"
  using assms
  by (simp add: NewControlConn_def DeriveControlKey_def DeriveBoostAESKey_def EnableBoost_def Let_def)

text \<open>Stand-ins for the library functions, for concrete runs only.\<close>

definition toy_sha256 :: "byte list \<Rightarrow> byte list" where
  "toy_sha256 bs = replicate 32 (of_nat (length bs))"

definition toy_aes :: "byte list \<Rightarrow> byte list \<Rightarrow> nat \<Rightarrow> byte" where
  "toy_aes key iv n = of_nat n + (case key of [] \<Rightarrow> 0 | k # _ \<Rightarrow> k)"

theorem derived_key_material_witness:
  "length (toy_sha256 (bytes_of (''k'' @ ''|hb-aes''))) = 32
   \<and> 16 \<le> length (replicate 16 (0 :: byte))
   \<and> (\<exists>sc'. EnableBoost toy_aes True True (DeriveBoostAESKey toy_sha256 ''k'') (replicate 16 0) True sample_conn
                = Inr sc'
          \<and> map_option stream_key (boostEnc sc') = Some (replicate 16 8)
          \<and> map_option stream_key (boostDec sc') = Some (replicate 16 8))"
proof -
  have h1: "length (toy_sha256 (bytes_of (''k'' @ ''|hb-aes''))) = 32"
    by (simp add: toy_sha256_def)
  have h2: "16 \<le> length (replicate 16 (0 :: byte))" by simp
  have t: "take 16 (toy_sha256 (bytes_of (''k'' @ ''|hb-aes''))) = replicate 16 8"
    by (simp add: toy_sha256_def bytes_of_def)
  from derived_key_material [where sha = toy_sha256 and seed = "''k''" and iv = "replicate 16 0"
      and aes = toy_aes and wr = True and rd = True and ascii = True and sc = sample_conn
      and b = "[]" and h = None and od = None and w = "()", OF h1 h2]
  obtain sc' where
    "EnableBoost toy_aes True True (DeriveBoostAESKey toy_sha256 ''k'') (replicate 16 0) True sample_conn = Inr sc'"
    "boostEnc sc' = Some (NewCTR toy_aes (take 16 (toy_sha256 (bytes_of (''k'' @ ''|hb-aes'')))) (take 16 (replicate 16 0)))"
    "boostDec sc' = Some (NewCTR toy_aes (take 16 (toy_sha256 (bytes_of (''k'' @ ''|hb-aes'')))) (take 16 (replicate 16 0)))"
    by auto
  then show ?thesis
    using h1 h2 t by (auto simp add: NewCTR_def)
qed

section \<open>The handshake (package apis)\<close>

text \<open>\<^verbatim>\<open>binary.BigEndian.PutUint64\<close> and \<^verbatim>\<open>binary.BigEndian.Uint64\<close>.\<close>

definition PutUint64 :: "64 word \<Rightarrow> byte list" where
  "PutUint64 v =
     [ucast (drop_bit 56 v), ucast (drop_bit 48 v), ucast (drop_bit 40 v), ucast (drop_bit 32 v),
      ucast (drop_bit 24 v), ucast (drop_bit 16 v), ucast (drop_bit 8 v), ucast v]"

definition Uint64 :: "byte list \<Rightarrow> 64 word" where
  "Uint64 b =
     ucast (b ! 7) OR push_bit 8 (ucast (b ! 6)) OR push_bit 16 (ucast (b ! 5))
       OR push_bit 24 (ucast (b ! 4)) OR push_bit 32 (ucast (b ! 3)) OR push_bit 40 (ucast (b ! 2))
       OR push_bit 48 (ucast (b ! 1)) OR push_bit 56 (ucast (b ! 0))"

text \<open>Go's \<^verbatim>\<open>copy(dst, src)\<close>: the destination after the copy.\<close>

definition copy_into :: "byte list \<Rightarrow> byte list \<Rightarrow> byte list" where
  "copy_into dst src = take (length dst) src @ drop (length src) dst"

text \<open>
  \<open>now\<close> is the reading of \<^verbatim>\<open>time.Now().Unix()\<close>, an \<^verbatim>\<open>int64\<close>; its conversion to
  \<^verbatim>\<open>uint64\<close> keeps the bits.
\<close>

definition buildHandshakePayload :: "(byte list \<Rightarrow> byte list) \<Rightarrow> 64 word \<Rightarrow> string \<Rightarrow> byte list" where
  "buildHandshakePayload sha now key =
     (let payload = replicate 16 0;
          payload = PutUint64 now @ drop 8 payload;
          hash = sha (bytes_of key)
      in take 8 payload @ copy_into (drop 8 payload) (take 8 hash))"

lemma Uint64_PutUint64: "Uint64 (PutUint64 v) = v"
proof (rule bit_word_eqI)
  fix n assume n: "n < LENGTH(64)"
  have "bit (Uint64 (PutUint64 v)) n \<longleftrightarrow>
        (n < 8 \<or> 8 \<le> n \<and> n < 16 \<or> 16 \<le> n \<and> n < 24 \<or> 24 \<le> n \<and> n < 32
          \<or> 32 \<le> n \<and> n < 40 \<or> 40 \<le> n \<and> n < 48 \<or> 48 \<le> n \<and> n < 56 \<or> 56 \<le> n \<and> n < 64) \<and> bit v n"
    unfolding Uint64_def PutUint64_def using n
    by (simp add: bit_simps less_diff_conv2 cong: conj_cong) blast
  also have "\<dots> \<longleftrightarrow> bit v n"
    using n by auto
  finally show "bit (Uint64 (PutUint64 v)) n = bit v n" .
qed

lemma PutUint64_zero_iff: "PutUint64 v = replicate 8 0 \<longleftrightarrow> v = 0"
proof
  assume "PutUint64 v = replicate 8 0"
  then have "Uint64 (PutUint64 v) = Uint64 (replicate 8 0)" by simp
  then show "v = 0" by (simp add: Uint64_PutUint64) (simp add: Uint64_def)
next
  assume "v = 0" then show "PutUint64 v = replicate 8 0"
    by (simp add: PutUint64_def numeral_eq_Suc)
qed

text \<open>
  Claim C9. For every key, the handshake payload is 16 bytes; the first 8 are the clock
  reading in big-endian order (reading them back big-endian gives the clock reading, and
  they are not all zero when the clock reading is not zero); the last 8 are the first 8
  bytes of SHA-256 of the key.
\<close>

theorem buildHandshakePayload_format:
  assumes "length (sha (bytes_of key)) = 32"
    and "now \<noteq> 0"
  shows "length (buildHandshakePayload sha now key) = 16
       \<and> take 8 (buildHandshakePayload sha now key) = PutUint64 now
       \<and> Uint64 (take 8 (buildHandshakePayload sha now key)) = now
       \<and> take 8 (buildHandshakePayload sha now key) \<noteq> replicate 8 0
       \<and> drop 8 (buildHandshakePayload sha now key) = take 8 (sha (bytes_of key))"
proof -
  have len: "length (PutUint64 now) = 8" by (simp add: PutUint64_def)
  have p: "buildHandshakePayload sha now key = PutUint64 now @ take 8 (sha (bytes_of key))"
    using assms(1) len by (simp add: buildHandshakePayload_def copy_into_def Let_def)
  show ?thesis
    using assms len PutUint64_zero_iff [of now] by (simp add: p Uint64_PutUint64)
qed

theorem buildHandshakePayload_format_witness:
  "length (toy_sha256 (bytes_of ''handshake-key'')) = 32
   \<and> (1700000000 :: 64 word) \<noteq> 0
   \<and> buildHandshakePayload toy_sha256 1700000000 ''handshake-key''
       = [0, 0, 0, 0, 0x65, 0x53, 0xF1, 0] @ replicate 8 13"
proof -
  have h1: "length (toy_sha256 (bytes_of ''handshake-key'')) = 32"
    by (simp add: toy_sha256_def)
  have h2: "(1700000000 :: 64 word) \<noteq> 0" by simp
  have "PutUint64 1700000000 = [0, 0, 0, 0, 0x65, 0x53, 0xF1, 0]"
    by (simp add: PutUint64_def)
  moreover have "take 8 (toy_sha256 (bytes_of ''handshake-key'')) = replicate 8 13"
    by (simp add: toy_sha256_def bytes_of_def)
  ultimately show ?thesis
    using buildHandshakePayload_format [where sha = toy_sha256 and key = "''handshake-key''"
        and now = 1700000000, OF h1 h2] h1 h2
      append_take_drop_id [of 8 "buildHandshakePayload toy_sha256 1700000000 ''handshake-key''"]
    by simp
qed

subsection \<open>The buffered reader over the raw connection\<close>

text \<open>
  \<^verbatim>\<open>bufio\<close> is library code; the handshake and \<^verbatim>\<open>httpmask.ConsumeHeader\<close> use its \<^verbatim>\<open>Peek\<close>
  and \<^verbatim>\<open>ReadSlice\<close>. A read of the connection below yields data or an error, never both,
  and the only error is end of file. \<open>fill\<close> is one read of the connection below into
  the free space of the buffer; a read that yields nothing is tried again by the caller,
  and the library's limit of 100 such reads in a row is left out.
\<close>

datatype bufio_error = io_EOF | ErrBufferFull

definition NewReader :: "byte list list \<Rightarrow> bufio_Reader" where
  "NewReader rd = \<lparr>buffered = [], incoming = rd, bufsize = 4096\<rparr>"

definition fill :: "bufio_Reader \<Rightarrow> bufio_Reader" where
  "fill r =
     (case incoming r of
        [] \<Rightarrow> r
      | c # cs \<Rightarrow>
          (let space = bufsize r - length (buffered r)
           in r\<lparr>buffered := buffered r @ take space c,
                incoming := (if length c \<le> space then cs else drop space c # cs)\<rparr>))"

definition unread :: "bufio_Reader \<Rightarrow> nat" where
  "unread r = length (concat (incoming r)) + length (incoming r)"

lemma fill_unread:
  "incoming r \<noteq> [] \<Longrightarrow> length (buffered r) < bufsize r \<Longrightarrow> unread (fill r) < unread r"
  by (cases "incoming r") (auto simp add: fill_def unread_def Let_def)

text \<open>The loop of \<^verbatim>\<open>Peek\<close>: the reader once enough is buffered, the buffer is full or the
  connection is at its end, and whether it is at its end.\<close>

function Peek_fill :: "nat \<Rightarrow> bufio_Reader \<Rightarrow> bufio_Reader \<times> bool" where
  "Peek_fill n r =
     (if length (buffered r) < n \<and> length (buffered r) < bufsize r
      then (if incoming r = [] then (r, True) else Peek_fill n (fill r))
      else (r, False))"
  by pat_completeness auto
termination
  by (relation "measure (\<lambda>(n, r). unread r)") (auto simp add: fill_unread)

declare Peek_fill.simps [simp del]

definition Peek :: "nat \<Rightarrow> bufio_Reader \<Rightarrow> (byte list \<times> bufio_error option) \<times> bufio_Reader" where
  "Peek n r =
     (let (r1, eof) = Peek_fill n r;
          avail = length (buffered r1)
      in if avail < n then ((buffered r1, Some (if eof then io_EOF else ErrBufferFull)), r1)
         else ((take n (buffered r1), None), r1))"

text \<open>\<^verbatim>\<open>ReadSlice\<close>: the line up to and including the first delimiter; at the end of the
  connection or with a full buffer, everything that is buffered, which it consumes, and
  the error.\<close>

function ReadSlice ::
  "byte \<Rightarrow> bufio_Reader \<Rightarrow> (byte list \<times> bufio_error option) \<times> bufio_Reader" where
  "ReadSlice delim r =
     (if delim \<in> set (buffered r) then
        (let line = takeWhile (\<lambda>b. b \<noteq> delim) (buffered r) @ [delim]
         in ((line, None), r\<lparr>buffered := drop (length line) (buffered r)\<rparr>))
      else if bufsize r \<le> length (buffered r) then
        ((buffered r, Some ErrBufferFull), r\<lparr>buffered := []\<rparr>)
      else if incoming r = [] then
        ((buffered r, Some io_EOF), r\<lparr>buffered := []\<rparr>)
      else ReadSlice delim (fill r))"
  by pat_completeness auto
termination
  by (relation "measure (\<lambda>(delim, r). unread r)") (auto simp add: fill_unread)

declare ReadSlice.simps [simp del]

subsection \<open>The HTTP mask (pkg/obfs/httpmask/masker.go)\<close>

datatype header_error = ReadError bufio_error | InvalidMethod "byte list"

definition held :: "bufio_Reader \<Rightarrow> nat" where
  "held r = length (buffered r) + length (concat (incoming r))"

lemma held_fill: "length (buffered r) < bufsize r \<Longrightarrow> held (fill r) = held r"
  by (cases "incoming r") (auto simp add: fill_def held_def Let_def)

lemma ReadSlice_line:
  "ReadSlice delim r = ((line, None), r1) \<Longrightarrow> held r1 < held r"
proof (induction delim r rule: ReadSlice.induct)
  case (1 delim r)
  show ?case
  proof (cases "delim \<in> set (buffered r)")
    case True
    then have "buffered r \<noteq> []" by auto
    then show ?thesis
      using "1.prems" True
      by (subst (asm) ReadSlice.simps) (auto simp add: Let_def held_def)
  next
    case False
    show ?thesis
    proof (cases "bufsize r \<le> length (buffered r) \<or> incoming r = []")
      case True
      then show ?thesis
        using "1.prems" False by (subst (asm) ReadSlice.simps) (auto split: if_splits)
    next
      case more: False
      then have "ReadSlice delim (fill r) = ((line, None), r1)"
        using "1.prems" False by (subst (asm) ReadSlice.simps) simp
      then have "held r1 < held (fill r)"
        using "1.IH" False more by simp
      then show ?thesis using more by (simp add: held_fill)
    qed
  qed
qed

text \<open>The loop of \<^verbatim>\<open>ConsumeHeader\<close> over the header lines.\<close>

function header_lines ::
  "byte list \<Rightarrow> bufio_Reader \<Rightarrow> (byte list \<times> header_error option) \<times> bufio_Reader" where
  "header_lines consumed r =
     (case ReadSlice 0x0A r of
        ((line, Some err), r1) \<Rightarrow> ((consumed, Some (ReadError err)), r1)
      | ((line, None), r1) \<Rightarrow>
          (let consumed1 = consumed @ line;
               n = length line
           in if n = 2 \<and> line ! 0 = 0x0D \<and> line ! 1 = 0x0A then ((consumed1, None), r1)
              else if n = 1 \<and> line ! 0 = 0x0A then ((consumed1, None), r1)
              else header_lines consumed1 r1))"
  by pat_completeness auto
termination
  by (relation "measure (\<lambda>(consumed, r). held r)") (auto simp add: ReadSlice_line [OF sym])

declare header_lines.simps [simp del]

text \<open>\<^verbatim>\<open>ConsumeHeader\<close>: the bytes it returns, the error if any, and the reader as it
  leaves it. The empty list is \<^verbatim>\<open>nil\<close>.\<close>

definition ConsumeHeader ::
  "bufio_Reader \<Rightarrow> (byte list \<times> header_error option) \<times> bufio_Reader" where
  "ConsumeHeader r =
     (case ReadSlice 0x0A r of
        ((line, Some err), r1) \<Rightarrow> (([], Some (ReadError err)), r1)
      | ((line, None), r1) \<Rightarrow>
          (let consumed = line
           in if length line < 4 \<or> take 4 line \<noteq> bytes_of ''POST''
              then ((consumed, Some (InvalidMethod line)), r1)
              else header_lines consumed r1))"

subsection \<open>The server handshake\<close>

text \<open>\<^verbatim>\<open>abs\<close> on \<^verbatim>\<open>int64\<close>: negation wraps around.\<close>

definition abs64 :: "64 word \<Rightarrow> 64 word" where
  "abs64 x = (if x <s 0 then - x else x)"

datatype handshake_cause =
    InvalidHTTPHeader header_error
  | CryptoSetupFailed
  | ReadHandshakeFailed
  | TimestampSkew "64 word" "64 word"
  | ReadTargetAddressFailed

record 'c HandshakeError =
  Err :: handshake_cause
  RawConn :: 'c
  HTTPHeaderData :: "byte list"
  ReadData :: "byte list"

datatype 'c handshake_failure =
    ConfigRequired
  | InvalidConfig
  | Handshake "'c HandshakeError"

text \<open>The fields of the configuration that the handshake reads.\<close>

record ProtocolConfig =
  Key :: string
  AEADMethod :: string
  cfgTable :: Table
  PaddingMin :: int
  PaddingMax :: int
  DisableHTTPMask :: bool

text \<open>
  What the handshake calls but the files at hand do not define, and what the peer and
  the clock decide, come in as the environment:
  \<^item> \<open>Validate\<close>: whether \<^verbatim>\<open>cfg.Validate()\<close> accepts;
  \<^item> \<open>inbound\<close>: the chunks the raw connection delivers, before its end;
  \<^item> \<open>entropy\<close>: the seed of the connection's generator;
  \<^item> \<open>NewAEADConn_ok\<close>: whether \<^verbatim>\<open>crypto.NewAEADConn\<close> accepts the key and method;
  \<^item> \<open>ReadFull16\<close>: \<^verbatim>\<open>io.ReadFull(cConn, handshakeBuf)\<close>: the 16 bytes, or \<open>None\<close> when it
    fails, and the obfuscation connection as the reads below the cipher leave it;
  \<^item> \<open>time_Now_Unix\<close>: the server clock;
  \<^item> \<open>ReadAddress\<close>: \<^verbatim>\<open>protocol.ReadAddress(cConn)\<close>, likewise;
  \<^item> \<open>cConn_Close\<close>: what closing the cipher connection does to the connection below.
  Read deadlines are not part of the model.
\<close>

record handshake_env =
  Validate :: "ProtocolConfig \<Rightarrow> bool"
  inbound :: "byte list list"
  entropy :: rng
  NewAEADConn_ok :: "string \<Rightarrow> string \<Rightarrow> bool"
  ReadFull16 :: "Conn \<Rightarrow> byte list option \<times> Conn"
  time_Now_Unix :: "64 word"
  ReadAddress :: "Conn \<Rightarrow> string option \<times> Conn"
  cConn_Close :: "Conn \<Rightarrow> Conn"

text \<open>
  The stage of the HTTP mask: the reader over the raw connection is made, four bytes are
  peeked unless the mask is disabled and, if they are \<^verbatim>\<open>POST\<close>, the header is consumed.
  The result is the header data, the error of \<^verbatim>\<open>ConsumeHeader\<close> if any, and the reader
  at the end of the stage.
\<close>

definition mask_stage ::
  "handshake_env \<Rightarrow> ProtocolConfig \<Rightarrow> (byte list \<times> header_error option) \<times> bufio_Reader" where
  "mask_stage env cfg =
     (let bufReader = NewReader (inbound env);
          (shouldConsumeMask, r1) =
             (if \<not> DisableHTTPMask cfg then
                (case Peek 4 bufReader of
                   ((peekBytes, err), r1) \<Rightarrow> (err = None \<and> peekBytes = bytes_of ''POST'', r1))
              else (False, bufReader))
      in if shouldConsumeMask then ConsumeHeader r1 else (([], None), r1))"

text \<open>
  \<^verbatim>\<open>bufferedConn\<close>: the reads of the connection above, whose buffer is the larger one, are
  served by the reader: first what it holds, in one piece, then the chunks of the raw
  connection.
\<close>

definition bufferedConn :: "bufio_Reader \<Rightarrow> byte list list" where
  "bufferedConn r = (if buffered r = [] then incoming r else buffered r # incoming r)"

text \<open>The closure \<^verbatim>\<open>fail\<close>; the connection is passed in the state it has at the call.\<close>

definition fail ::
  "'c \<Rightarrow> byte list \<Rightarrow> handshake_cause \<Rightarrow> Conn \<Rightarrow> ('c handshake_failure + Conn \<times> string) \<times> Conn option" where
  "fail rawConn httpHeaderData originalErr sConn =
     (let badData = GetBufferedAndRecorded (Some sConn)
      in (Inl (Handshake \<lparr>Err = originalErr, RawConn = rawConn,
                           HTTPHeaderData = httpHeaderData, ReadData = badData\<rparr>),
          Some sConn))"

text \<open>
  The result, and the obfuscation connection as the handshake leaves it (\<open>None\<close> when it
  was never made).
\<close>

definition ServerHandshake ::
  "handshake_env \<Rightarrow> 'c \<Rightarrow> ProtocolConfig option \<Rightarrow> ('c handshake_failure + Conn \<times> string) \<times> Conn option" where
  "ServerHandshake env rawConn cfgo =
     (case cfgo of
        None \<Rightarrow> (Inl ConfigRequired, None)
      | Some cfg \<Rightarrow>
          if \<not> Validate env cfg then (Inl InvalidConfig, None)
          else
            (case mask_stage env cfg of
               ((httpHeaderData, Some err), bufReader) \<Rightarrow>
                  (Inl (Handshake \<lparr>Err = InvalidHTTPHeader err, RawConn = rawConn,
                                      HTTPHeaderData = httpHeaderData, ReadData = []\<rparr>),
                   None)
             | ((httpHeaderData, None), bufReader) \<Rightarrow>
                  (let sConn = NewConn (bufferedConn bufReader) (cfgTable cfg) (PaddingMin cfg)
                                 (PaddingMax cfg) True (entropy env)
                   in if \<not> NewAEADConn_ok env (Key cfg) (AEADMethod cfg) then
                        fail rawConn httpHeaderData CryptoSetupFailed sConn
                      else
                        (case ReadFull16 env sConn of
                           (None, sc1) \<Rightarrow>
                             fail rawConn httpHeaderData ReadHandshakeFailed (cConn_Close env sc1)
                         | (Some handshakeBuf, sc1) \<Rightarrow>
                             (let ts = Uint64 (take 8 handshakeBuf);
                                  now = time_Now_Unix env
                              in if 60 <s abs64 (now - ts) then
                                   fail rawConn httpHeaderData (TimestampSkew now ts) (cConn_Close env sc1)
                                 else
                                   (let sc2 = StopRecording sc1
                                    in case ReadAddress env sc2 of
                                         (None, sc3) \<Rightarrow>
                                           fail rawConn httpHeaderData ReadTargetAddressFailed
                                             (cConn_Close env sc3)
                                       | (Some targetAddr, sc3) \<Rightarrow>
                                           (Inr (sc3, targetAddr), Some sc3)))))))"

lemma GetBufferedAndRecorded_eq:
  "GetBufferedAndRecorded sco =
     (case sco of None \<Rightarrow> []
      | Some sc \<Rightarrow> (case recorder sc of None \<Rightarrow> [] | Some bs \<Rightarrow> bs) @ buffered (reader sc))"
  by (simp add: GetBufferedAndRecorded_def Let_def split: option.splits)

text \<open>
  Every failure once the configuration has been accepted is a \<open>HandshakeError\<close> with the
  raw connection, the header data that \<^verbatim>\<open>ConsumeHeader\<close> returned (none when no mask was
  consumed) and, as \<open>ReadData\<close>, the value of \<open>GetBufferedAndRecorded\<close> on the obfuscation
  connection at that moment; while the mask is being consumed that connection does not
  exist yet, and the value is empty.
\<close>

lemma handshake_failure_shape:
  assumes "Validate env cfg"
    and "ServerHandshake env rawConn (Some cfg) = (Inl f, sco)"
  shows "\<exists>e. f = Handshake e
           \<and> RawConn e = rawConn
           \<and> HTTPHeaderData e = fst (fst (mask_stage env cfg))
           \<and> ReadData e = GetBufferedAndRecorded sco"
  using assms
  using GetBufferedAndRecorded_eq [of None]
  by (auto simp add: ServerHandshake_def fail_def Let_def
      split: if_splits prod.splits option.splits)

text \<open>
  A configuration and an environment for concrete runs: the peer sent a masked request
  and then 64 bytes in a chunk of their own, reading the handshake payload \<open>hs\<close> pulled
  that chunk through the recorder, and the clock reads \<open>now\<close>.
\<close>

definition sample_cfg :: ProtocolConfig where
  "sample_cfg = \<lparr>Key = ''k'', AEADMethod = ''none'', cfgTable = sample_table,
                  PaddingMin = 0, PaddingMax = 0, DisableHTTPMask = False\<rparr>"

definition sample_header :: "byte list" where
  "sample_header = bytes_of ''POST /u HTTP/1.1'' @ [0x0D, 0x0A] @ bytes_of ''Host: h'' @ [0x0D, 0x0A, 0x0D, 0x0A]"

definition sample_env :: "byte list \<Rightarrow> 64 word \<Rightarrow> handshake_env" where
  "sample_env hs now =
     \<lparr>Validate = (\<lambda>cfg. True),
      inbound = [sample_header, replicate 64 0x41],
      entropy = [],
      NewAEADConn_ok = (\<lambda>key method. True),
      ReadFull16 = (\<lambda>sc. (Some hs,
                           sc\<lparr>recorder := map_option (\<lambda>bs. bs @ concat (incoming (reader sc))) (recorder sc),
                              reader := (reader sc)\<lparr>incoming := []\<rparr>\<rparr>)),
      time_Now_Unix = now,
      ReadAddress = (\<lambda>sc. (Some ''example.com:443'', sc)),
      cConn_Close = (\<lambda>sc. sc)\<rparr>"

text \<open>A payload whose timestamp is 1700000000 - 2^63.\<close>

definition wrapped_payload :: "byte list" where
  "wrapped_payload = [0x80, 0, 0, 0, 0x65, 0x53, 0xF1, 0, 0, 0, 0, 0, 0, 0, 0, 0]"

subsection \<open>Running the mask stage\<close>

lemma Peek_fill_enough:
  "\<not> (length (buffered r) < n \<and> length (buffered r) < bufsize r) \<Longrightarrow> Peek_fill n r = (r, False)"
  by (subst Peek_fill.simps) auto

lemma Peek_fill_eof:
  "length (buffered r) < n \<Longrightarrow> length (buffered r) < bufsize r \<Longrightarrow> incoming r = []
     \<Longrightarrow> Peek_fill n r = (r, True)"
  by (subst Peek_fill.simps) simp

lemma Peek_fill_more:
  "length (buffered r) < n \<Longrightarrow> length (buffered r) < bufsize r \<Longrightarrow> incoming r \<noteq> []
     \<Longrightarrow> Peek_fill n r = Peek_fill n (fill r)"
  by (subst Peek_fill.simps) simp

lemma ReadSlice_found:
  "delim \<in> set (buffered r) \<Longrightarrow>
     ReadSlice delim r =
       ((takeWhile (\<lambda>b. b \<noteq> delim) (buffered r) @ [delim], None),
        r\<lparr>buffered := drop (Suc (length (takeWhile (\<lambda>b. b \<noteq> delim) (buffered r)))) (buffered r)\<rparr>)"
  by (subst ReadSlice.simps) (simp add: Let_def)

lemma ReadSlice_eof:
  "delim \<notin> set (buffered r) \<Longrightarrow> length (buffered r) < bufsize r \<Longrightarrow> incoming r = []
     \<Longrightarrow> ReadSlice delim r = ((buffered r, Some io_EOF), r\<lparr>buffered := []\<rparr>)"
  by (subst ReadSlice.simps) simp

lemma ReadSlice_more:
  "delim \<notin> set (buffered r) \<Longrightarrow> length (buffered r) < bufsize r \<Longrightarrow> incoming r \<noteq> []
     \<Longrightarrow> ReadSlice delim r = ReadSlice delim (fill r)"
  by (subst ReadSlice.simps) simp

lemma header_lines_more:
  assumes "ReadSlice 0x0A r = ((line, None), r1)"
    and "\<not> (length line = 2 \<and> line ! 0 = 0x0D \<and> line ! 1 = 0x0A)"
    and "\<not> (length line = 1 \<and> line ! 0 = 0x0A)"
  shows "header_lines consumed r = header_lines (consumed @ line) r1"
  using assms by (subst header_lines.simps) (auto simp add: Let_def)

lemma header_lines_end:
  assumes "ReadSlice 0x0A r = ((line, None), r1)"
    and "(length line = 2 \<and> line ! 0 = 0x0D \<and> line ! 1 = 0x0A) \<or> (length line = 1 \<and> line ! 0 = 0x0A)"
  shows "header_lines consumed r = ((consumed @ line, None), r1)"
  using assms by (subst header_lines.simps) (auto simp add: Let_def)

lemma header_lines_error:
  assumes "ReadSlice 0x0A r = ((line, Some err), r1)"
  shows "header_lines consumed r = ((consumed, Some (ReadError err)), r1)"
  using assms by (subst header_lines.simps) simp

lemma sample_header_bytes:
  "sample_header =
     [0x50, 0x4F, 0x53, 0x54, 0x20, 0x2F, 0x75, 0x20, 0x48, 0x54, 0x54, 0x50, 0x2F, 0x31, 0x2E, 0x31,
      0x0D, 0x0A, 0x48, 0x6F, 0x73, 0x74, 0x3A, 0x20, 0x68, 0x0D, 0x0A, 0x0D, 0x0A]"
  by (simp add: sample_header_def bytes_of_def)

lemma POST_bytes: "bytes_of ''POST'' = [0x50, 0x4F, 0x53, 0x54]"
  by (simp add: bytes_of_def)

lemma sample_mask_stage:
  "mask_stage (sample_env hs now) sample_cfg =
     ((sample_header, None), \<lparr>buffered = [], incoming = [replicate 64 0x41], bufsize = 4096\<rparr>)"
proof -
  let ?l1 = "[0x50, 0x4F, 0x53, 0x54, 0x20, 0x2F, 0x75, 0x20, 0x48, 0x54, 0x54, 0x50, 0x2F, 0x31, 0x2E, 0x31,
              0x0D, 0x0A] :: byte list"
  let ?l2 = "[0x48, 0x6F, 0x73, 0x74, 0x3A, 0x20, 0x68, 0x0D, 0x0A] :: byte list"
  let ?l3 = "[0x0D, 0x0A] :: byte list"
  let ?in = "[replicate 64 0x41] :: byte list list"
  let ?r0 = "NewReader [?l1 @ ?l2 @ ?l3, replicate 64 0x41]"
  let ?r1 = "\<lparr>buffered = ?l1 @ ?l2 @ ?l3, incoming = ?in, bufsize = 4096\<rparr>"
  let ?r2 = "\<lparr>buffered = ?l2 @ ?l3, incoming = ?in, bufsize = 4096\<rparr>"
  let ?r3 = "\<lparr>buffered = ?l3, incoming = ?in, bufsize = 4096\<rparr>"
  let ?r4 = "\<lparr>buffered = [], incoming = ?in, bufsize = 4096\<rparr>"
  have sh: "sample_header = ?l1 @ ?l2 @ ?l3"
    by (simp add: sample_header_bytes)
  have f: "fill ?r0 = ?r1"
    by (simp add: fill_def NewReader_def Let_def)
  have "Peek_fill 4 ?r0 = Peek_fill 4 (fill ?r0)"
    by (rule Peek_fill_more) (simp_all add: NewReader_def)
  also have "\<dots> = (?r1, False)"
    unfolding f by (rule Peek_fill_enough) simp
  finally have pk: "Peek 4 ?r0 = ((bytes_of ''POST'', None), ?r1)"
    by (simp add: Peek_def POST_bytes)
  have l1: "ReadSlice 0x0A ?r1 = ((?l1, None), ?r2)"
    by (subst ReadSlice_found) simp_all
  have l2: "ReadSlice 0x0A ?r2 = ((?l2, None), ?r3)"
    by (subst ReadSlice_found) simp_all
  have l3: "ReadSlice 0x0A ?r3 = ((?l3, None), ?r4)"
    by (subst ReadSlice_found) simp_all
  have "header_lines ?l1 ?r2 = header_lines (?l1 @ ?l2) ?r3"
    by (rule header_lines_more [OF l2]) simp_all
  also have "\<dots> = (((?l1 @ ?l2) @ ?l3, None), ?r4)"
    by (rule header_lines_end [OF l3]) simp
  finally have h: "header_lines ?l1 ?r2 = ((?l1 @ ?l2 @ ?l3, None), ?r4)"
    by simp
  have ch: "ConsumeHeader ?r1 = ((?l1 @ ?l2 @ ?l3, None), ?r4)"
    unfolding ConsumeHeader_def l1 using h by (simp add: Let_def POST_bytes)
  show ?thesis
    unfolding sh using pk ch by (simp add: mask_stage_def sample_env_def sample_cfg_def sh)
qed

text \<open>The peer's request ends in the middle of the request line: the raw connection
  delivers the seven bytes \<^verbatim>\<open>POST /u\<close> and is then at its end.\<close>

definition truncated_env :: handshake_env where
  "truncated_env = (sample_env (replicate 16 0) 1700000000)\<lparr>inbound := [bytes_of ''POST /u'']\<rparr>"

lemma truncated_ReadSlice:
  "ReadSlice 0x0A \<lparr>buffered = bytes_of ''POST /u'', incoming = [], bufsize = 4096\<rparr>
     = ((bytes_of ''POST /u'', Some io_EOF), \<lparr>buffered = [], incoming = [], bufsize = 4096\<rparr>)"
  by (subst ReadSlice_eof) (simp_all add: bytes_of_def)

lemma truncated_Peek:
  "Peek 4 (NewReader [bytes_of ''POST /u''])
     = ((bytes_of ''POST'', None), \<lparr>buffered = bytes_of ''POST /u'', incoming = [], bufsize = 4096\<rparr>)"
proof -
  let ?r0 = "NewReader [bytes_of ''POST /u'']"
  let ?r1 = "\<lparr>buffered = bytes_of ''POST /u'', incoming = [], bufsize = 4096\<rparr>"
  have f: "fill ?r0 = ?r1"
    by (simp add: fill_def NewReader_def Let_def bytes_of_def)
  have "Peek_fill 4 ?r0 = Peek_fill 4 (fill ?r0)"
    by (rule Peek_fill_more) (simp_all add: NewReader_def)
  also have "\<dots> = (?r1, False)"
    unfolding f by (rule Peek_fill_enough) (simp add: bytes_of_def)
  finally show ?thesis
    by (simp add: Peek_def bytes_of_def)
qed

lemma truncated_mask_stage:
  "mask_stage truncated_env sample_cfg =
     (([], Some (ReadError io_EOF)), \<lparr>buffered = [], incoming = [], bufsize = 4096\<rparr>)"
  by (simp add: mask_stage_def truncated_env_def sample_env_def sample_cfg_def truncated_Peek
      ConsumeHeader_def truncated_ReadSlice)

text \<open>
  Claim C3, at the input where the code departs from it. The raw connection delivers
  \<^verbatim>\<open>POST /u\<close> and ends. \<^verbatim>\<open>Peek\<close> sees \<^verbatim>\<open>POST\<close>, so the header is consumed; \<^verbatim>\<open>ReadSlice\<close>
  takes all seven bytes out of the reader and reports the end of the connection, and
  \<^verbatim>\<open>ConsumeHeader\<close> returns \<^verbatim>\<open>nil\<close> with the error. The handshake fails at the mask with a
  \<open>HandshakeError\<close> whose header data and read data are both empty, while the reader over
  the raw connection holds nothing any more: the seven bytes consumed are in no part of
  the error.
\<close>

theorem handshake_failure_loses_consumed_header:
  "ServerHandshake truncated_env (7 :: nat) (Some sample_cfg)
     = (Inl (Handshake \<lparr>Err = InvalidHTTPHeader (ReadError io_EOF), RawConn = 7,
                         HTTPHeaderData = [], ReadData = []\<rparr>),
        None)
   \<and> inbound truncated_env = [bytes_of ''POST /u'']
   \<and> mask_stage truncated_env sample_cfg
       = (([], Some (ReadError io_EOF)), \<lparr>buffered = [], incoming = [], bufsize = 4096\<rparr>)
   \<and> fst (ReadSlice 0x0A (snd (Peek 4 (NewReader (inbound truncated_env)))))
       = (bytes_of ''POST /u'', Some io_EOF)"
proof -
  have v: "Validate truncated_env sample_cfg"
    by (simp add: truncated_env_def sample_env_def)
  have i: "inbound truncated_env = [bytes_of ''POST /u'']"
    by (simp add: truncated_env_def)
  have "ServerHandshake truncated_env (7 :: nat) (Some sample_cfg)
     = (Inl (Handshake \<lparr>Err = InvalidHTTPHeader (ReadError io_EOF), RawConn = 7,
                         HTTPHeaderData = [], ReadData = []\<rparr>),
        None)"
    using v by (simp add: ServerHandshake_def truncated_mask_stage)
  moreover have "fst (ReadSlice 0x0A (snd (Peek 4 (NewReader (inbound truncated_env)))))
       = (bytes_of ''POST /u'', Some io_EOF)"
    unfolding i truncated_Peek by (simp add: truncated_ReadSlice)
  ultimately show ?thesis
    using i truncated_mask_stage by (intro conjI)
qed

text \<open>Likewise when the connection ends within a later line: the lines read before are
  returned, the bytes of the unfinished line are consumed and dropped.\<close>

lemma ConsumeHeader_drops_partial_line:
  "ConsumeHeader \<lparr>buffered = bytes_of ''POST /u'' @ [0x0D, 0x0A] @ bytes_of ''Host: h'',
                   incoming = [], bufsize = 4096\<rparr>
     = ((bytes_of ''POST /u'' @ [0x0D, 0x0A], Some (ReadError io_EOF)),
        \<lparr>buffered = [], incoming = [], bufsize = 4096\<rparr>)"
proof -
  let ?l1 = "[0x50, 0x4F, 0x53, 0x54, 0x20, 0x2F, 0x75, 0x0D, 0x0A] :: byte list"
  let ?l2 = "[0x48, 0x6F, 0x73, 0x74, 0x3A, 0x20, 0x68] :: byte list"
  let ?r1 = "\<lparr>buffered = ?l1 @ ?l2, incoming = [], bufsize = 4096\<rparr>"
  let ?r2 = "\<lparr>buffered = ?l2, incoming = [], bufsize = 4096\<rparr>"
  let ?r3 = "\<lparr>buffered = [], incoming = [] :: byte list list, bufsize = 4096 :: nat\<rparr>"
  have b: "bytes_of ''POST /u'' @ [0x0D, 0x0A] @ bytes_of ''Host: h'' = ?l1 @ ?l2"
    "bytes_of ''POST /u'' @ [0x0D, 0x0A] = ?l1"
    by (simp_all add: bytes_of_def)
  have l1: "ReadSlice 0x0A ?r1 = ((?l1, None), ?r2)"
    by (subst ReadSlice_found) simp_all
  have l2: "ReadSlice 0x0A ?r2 = ((?l2, Some io_EOF), ?r3)"
    by (subst ReadSlice_eof) simp_all
  have h: "header_lines ?l1 ?r2 = ((?l1, Some (ReadError io_EOF)), ?r3)"
    by (rule header_lines_error [OF l2])
  show ?thesis
    unfolding b ConsumeHeader_def l1 using h by (simp add: Let_def bytes_of_def)
qed

subsection \<open>The timestamp check\<close>

lemma sint_abs64:
  assumes "- (2 ^ 63) < sint x"
  shows "sint (abs64 x) = \<bar>sint x\<bar>"
proof -
  have "sint (- x) = signed_take_bit 63 (- sint x)"
    by (simp add: sint_word_ariths)
  moreover have "sint x < 2 ^ 63" using sint_lt [of x] by simp
  ultimately have "sint (- x) = - sint x"
    using assms by (simp add: signed_take_bit_int_eq_self)
  then show ?thesis
    by (simp add: abs64_def word_sless_alt)
qed

text \<open>As long as the difference of the two clock readings fits into \<^verbatim>\<open>int64\<close> and is not
  its least value, the check rejects exactly the skews above 60 seconds.\<close>

lemma timestamp_check_without_overflow:
  assumes "\<bar>sint now - sint ts\<bar> < 2 ^ 63"
  shows "60 <s abs64 (now - ts) \<longleftrightarrow> 60 < \<bar>sint now - sint ts\<bar>"
proof -
  let ?d = "sint now - sint ts"
  have "sint (now - ts) = signed_take_bit 63 ?d"
    by (simp add: sint_word_ariths)
  then have d: "sint (now - ts) = ?d"
    using assms by (simp add: signed_take_bit_int_eq_self)
  have "sint (abs64 (now - ts)) = \<bar>?d\<bar>"
    using sint_abs64 [of "now - ts"] d assms by simp
  moreover have "60 <s abs64 (now - ts) \<longleftrightarrow> 60 < sint (abs64 (now - ts))"
    by (simp add: word_sless_alt)
  ultimately show ?thesis by linarith
qed


text \<open>What the handshake does once the 16 bytes have been read: it fails with the skew
  error when the check rejects, and otherwise stops the recording and goes on to read the
  target address.\<close>

lemma ServerHandshake_after_payload:
  assumes "Validate env cfg"
    and "mask_stage env cfg = ((hdr, None), bufReader)"
    and "NewAEADConn_ok env (Key cfg) (AEADMethod cfg)"
    and "ReadFull16 env (NewConn (bufferedConn bufReader) (cfgTable cfg) (PaddingMin cfg)
                            (PaddingMax cfg) True (entropy env)) = (Some buf, sc1)"
  shows "ServerHandshake env rawConn (Some cfg) =
           (if 60 <s abs64 (time_Now_Unix env - Uint64 (take 8 buf))
            then fail rawConn hdr (TimestampSkew (time_Now_Unix env) (Uint64 (take 8 buf)))
                   (cConn_Close env sc1)
            else (case ReadAddress env (StopRecording sc1) of
                    (None, sc3) \<Rightarrow> fail rawConn hdr ReadTargetAddressFailed (cConn_Close env sc3)
                  | (Some targetAddr, sc3) \<Rightarrow> (Inr (sc3, targetAddr), Some sc3)))"
  using assms by (simp add: ServerHandshake_def Let_def)

text \<open>With a payload that is a billion seconds old the sample run fails at the check,
  and the error carries the header and the 64 bytes that were read.\<close>

lemma sample_stale_run:
  "fst (ServerHandshake (sample_env (replicate 16 0) 1700000000) (7 :: nat) (Some sample_cfg))
     = Inl (Handshake \<lparr>Err = TimestampSkew 1700000000 0, RawConn = 7,
                         HTTPHeaderData = sample_header, ReadData = replicate 64 0x41\<rparr>)"
proof -
  let ?E = "sample_env (replicate 16 0) 1700000000"
  have v: "Validate ?E sample_cfg" by (simp add: sample_env_def)
  have k: "NewAEADConn_ok ?E (Key sample_cfg) (AEADMethod sample_cfg)" by (simp add: sample_env_def)
  obtain sc1 where rf: "ReadFull16 ?E (NewConn (bufferedConn \<lparr>buffered = [], incoming = [replicate 64 0x41], bufsize = 4096\<rparr>)
                            (cfgTable sample_cfg) (PaddingMin sample_cfg)
                            (PaddingMax sample_cfg) True (entropy ?E)) = (Some (replicate 16 0), sc1)"
    and rec: "recorder sc1 = Some (replicate 64 0x41)" and buf: "buffered (reader sc1) = []"
    by (simp add: sample_env_def NewConn_def bufferedConn_def Float32_def rng_next_def Let_def)
  have "60 <s abs64 (time_Now_Unix ?E - Uint64 (take 8 (replicate 16 0)))"
    by (simp add: sample_env_def Uint64_def abs64_def word_sless_alt)
  then show ?thesis
    using ServerHandshake_after_payload [OF v sample_mask_stage k rf, of "7 :: nat"] rec buf
    by (simp add: fail_def GetBufferedAndRecorded_def Let_def sample_env_def Uint64_def)
qed

text \<open>
  Claim C6, at the input where the code departs from it. The server clock reads
  1700000000 and the payload's timestamp bytes are \<open>80 00 00 00 65 53 F1 00\<close>, the
  \<^verbatim>\<open>int64\<close> 1700000000 - 2^63. The two differ by 2^63 seconds, but the subtraction wraps
  to the least \<^verbatim>\<open>int64\<close>, whose negation is itself, so \<open>abs64\<close> is negative, the check lets
  the payload pass, and the handshake succeeds.
\<close>

theorem timestamp_check_accepts_wrapped_skew:
  "map_sum id snd
     (fst (ServerHandshake (sample_env wrapped_payload 1700000000) (7 :: nat) (Some sample_cfg)))
     = Inr ''example.com:443''
   \<and> Uint64 (take 8 wrapped_payload) = 0x800000006553F100
   \<and> 60 < \<bar>sint (1700000000 :: 64 word) - sint (Uint64 (take 8 wrapped_payload))\<bar>
   \<and> abs64 (1700000000 - Uint64 (take 8 wrapped_payload)) = 0x8000000000000000"
proof -
  have u: "Uint64 (take 8 wrapped_payload) = 0x800000006553F100"
    by (simp add: Uint64_def wrapped_payload_def)
  have a: "abs64 (1700000000 - 0x800000006553F100) = 0x8000000000000000"
    by (simp add: abs64_def word_sless_alt)
  have n: "\<not> 60 <s abs64 (1700000000 - 0x800000006553F100)"
    unfolding a by (simp add: word_sless_alt)
  let ?E = "sample_env wrapped_payload 1700000000"
  let ?sc0 = "NewConn (bufferedConn \<lparr>buffered = [], incoming = [replicate 64 0x41], bufsize = 4096\<rparr>)
                (cfgTable sample_cfg) (PaddingMin sample_cfg) (PaddingMax sample_cfg) True (entropy ?E)"
  have v: "Validate ?E sample_cfg" by (simp add: sample_env_def)
  have k: "NewAEADConn_ok ?E (Key sample_cfg) (AEADMethod sample_cfg)" by (simp add: sample_env_def)
  have rf: "ReadFull16 ?E ?sc0 = (Some wrapped_payload, snd (ReadFull16 ?E ?sc0))"
    by (simp add: sample_env_def)
  have tn: "time_Now_Unix ?E = 1700000000" by (simp add: sample_env_def)
  have ra: "ReadAddress ?E x = (Some ''example.com:443'', x)" for x by (simp add: sample_env_def)
  have "ServerHandshake ?E (7 :: nat) (Some sample_cfg) =
          (Inr (StopRecording (snd (ReadFull16 ?E ?sc0)), ''example.com:443''),
           Some (StopRecording (snd (ReadFull16 ?E ?sc0))))"
    using n
    by (simp only: ServerHandshake_after_payload [OF v sample_mask_stage k rf] tn u if_False ra
        prod.case option.case)
  then have "map_sum id snd
     (fst (ServerHandshake (sample_env wrapped_payload 1700000000) (7 :: nat) (Some sample_cfg)))
     = Inr ''example.com:443''"
    by simp
  moreover have "60 < \<bar>sint (1700000000 :: 64 word) - sint (0x800000006553F100 :: 64 word)\<bar>"
    by simp
  ultimately show ?thesis
    using a by (simp only: u simp_thms)
qed

section \<open>The bandwidth monitor (package tunnel)\<close>

text \<open>
  An instant of the clock (\<^verbatim>\<open>time.Time\<close>) is an integer number of nanoseconds: the
  library's type reaches far beyond what an \<^verbatim>\<open>int64\<close> of nanoseconds can hold. A duration
  is an \<^verbatim>\<open>int64\<close> of nanoseconds, a byte count an \<^verbatim>\<open>int\<close> (64 bits wide) and the total an
  \<^verbatim>\<open>int64\<close>: they wrap around. \<open>total_bytes\<close> is the field \<^verbatim>\<open>total\<close>.
\<close>

record bandwidthSample =
  sample_t :: int
  sample_len :: "64 word"

record BandwidthMonitor =
  window :: "bandwidthSample list"
  total_bytes :: "64 word"
  threshold :: "64 word"
  windowDur :: "64 word"
  triggered :: bool
  pendingTick :: bool

definition NewBandwidthMonitor :: "64 word \<Rightarrow> 64 word \<Rightarrow> BandwidthMonitor" where
  "NewBandwidthMonitor thresholdBytes w =
     \<lparr>window = [], total_bytes = 0, threshold = thresholdBytes, windowDur = w,
      triggered = False, pendingTick = False\<rparr>"

text \<open>\<^verbatim>\<open>t.Add(d)\<close>: the instant \<open>d\<close> nanoseconds after \<open>t\<close>.\<close>

definition time_Add :: "int \<Rightarrow> 64 word \<Rightarrow> int" where
  "time_Add t d = t + sint d"

text \<open>The trimming loop together with the reslicing: the window and the total it leaves.\<close>

fun trim_stale ::
  "int \<Rightarrow> bandwidthSample list \<Rightarrow> 64 word \<Rightarrow> bandwidthSample list \<times> 64 word" where
  "trim_stale cutoff [] tot = ([], tot)"
| "trim_stale cutoff (s # ss) tot =
     (if sample_t s < cutoff then trim_stale cutoff ss (tot - sample_len s) else (s # ss, tot))"

text \<open>\<open>Add\<close> when the clock reads \<open>now\<close>.\<close>

definition Add :: "int \<Rightarrow> 64 word \<Rightarrow> BandwidthMonitor \<Rightarrow> bool \<times> BandwidthMonitor" where
  "Add now n m =
     (if n \<le>s 0 then (False, m)
      else
        (let m1 = m\<lparr>window := window m @ [\<lparr>sample_t = now, sample_len = n\<rparr>],
                     total_bytes := total_bytes m + n\<rparr>;
             cutoff = time_Add now (- windowDur m1);
             (w', tot') = trim_stale cutoff (window m1) (total_bytes m1);
             m2 = m1\<lparr>window := w', total_bytes := tot'\<rparr>
         in if triggered m2 then (False, m2)
            else if threshold m2 \<le>s total_bytes m2 then
              (if pendingTick m2 then (True, m2\<lparr>triggered := True\<rparr>)
               else (False, m2\<lparr>pendingTick := True\<rparr>))
            else (False, m2\<lparr>pendingTick := False\<rparr>)))"

text \<open>
  A lifetime of the monitor is a list of calls, each the clock reading and the argument.
  \<open>final\<close> is the monitor after them and \<open>run\<close> the results.
\<close>

fun final :: "BandwidthMonitor \<Rightarrow> (int \<times> 64 word) list \<Rightarrow> BandwidthMonitor" where
  "final m [] = m"
| "final m ((now, n) # cs) = final (snd (Add now n m)) cs"

fun run :: "BandwidthMonitor \<Rightarrow> (int \<times> 64 word) list \<Rightarrow> bool list" where
  "run m [] = []"
| "run m ((now, n) # cs) = fst (Add now n m) # run (snd (Add now n m)) cs"

text \<open>
  The firing condition in the words of the specification, from the calls alone. A call is
  admitted when its argument is positive. The rolling-window total after the last call of
  \<open>cs\<close> is the sum of the byte counts of the admitted calls of \<open>cs\<close> that are not older than
  the window duration at that call. \<open>totals\<close> gives, for every call, that total if the
  call is an admission. \<open>reached_twice\<close>, with "at or above": call \<open>i\<close> is an admission
  whose rolling total reaches the threshold, and so does the admission immediately before
  it.
\<close>

definition admitted :: "(int \<times> 64 word) list \<Rightarrow> (int \<times> 64 word) list" where
  "admitted cs = filter (\<lambda>c. 0 <s snd c) cs"

definition rolling_total :: "int \<Rightarrow> (int \<times> 64 word) list \<Rightarrow> int" where
  "rolling_total dur cs =
     sum_list (map (\<lambda>c. sint (snd c)) (filter (\<lambda>c. fst (last cs) - dur \<le> fst c) (admitted cs)))"

definition totals :: "int \<Rightarrow> (int \<times> 64 word) list \<Rightarrow> int option list" where
  "totals dur cs =
     map (\<lambda>k. if 0 <s snd (cs ! k) then Some (rolling_total dur (take (Suc k) cs)) else None)
       [0..<length cs]"

definition prev_reached :: "int \<Rightarrow> int option list \<Rightarrow> nat \<Rightarrow> bool" where
  "prev_reached thr T n \<longleftrightarrow>
     (\<exists>j<n. (\<exists>y. T ! j = Some y \<and> thr \<le> y) \<and> (\<forall>k. j < k \<and> k < n \<longrightarrow> T ! k = None))"

definition reached_twice :: "int \<Rightarrow> int option list \<Rightarrow> nat \<Rightarrow> bool" where
  "reached_twice thr T i \<longleftrightarrow> (\<exists>x. T ! i = Some x \<and> thr \<le> x) \<and> prev_reached thr T i"

text \<open>For each call whether it was admitted and, if so, the total the monitor holds after
  it.\<close>

fun admissions :: "BandwidthMonitor \<Rightarrow> (int \<times> 64 word) list \<Rightarrow> int option list" where
  "admissions m [] = []"
| "admissions m ((now, n) # cs) =
     (if n \<le>s 0 then None else Some (sint (total_bytes (snd (Add now n m)))))
       # admissions (snd (Add now n m)) cs"

subsection \<open>The total is the sum over the window\<close>

lemma trim_stale_eq:
  "trim_stale cutoff w tot =
     (dropWhile (\<lambda>s. sample_t s < cutoff) w,
      tot - sum_list (map sample_len (takeWhile (\<lambda>s. sample_t s < cutoff) w)))"
  by (induction w arbitrary: tot) auto

lemma sum_take_drop_while:
  "sum_list (map f (takeWhile P xs)) + sum_list (map f (dropWhile P xs))
     = (sum_list (map f xs) :: 64 word)"
  by (induction xs) auto

lemma Add_total:
  assumes "total_bytes m = sum_list (map sample_len (window m))"
  shows "total_bytes (snd (Add now n m)) = sum_list (map sample_len (window (snd (Add now n m))))"
proof (cases "n \<le>s 0")
  case True
  then show ?thesis using assms by (simp add: Add_def)
next
  case False
  let ?w = "window m @ [\<lparr>sample_t = now, sample_len = n\<rparr>]"
  let ?P = "\<lambda>s. sample_t s < time_Add now (- windowDur m)"
  have "sum_list (map sample_len (takeWhile ?P ?w)) + sum_list (map sample_len (dropWhile ?P ?w))
          = sum_list (map sample_len ?w)"
    by (rule sum_take_drop_while)
  then have "total_bytes m + n - sum_list (map sample_len (takeWhile ?P ?w))
          = sum_list (map sample_len (dropWhile ?P ?w))"
    using assms by (simp add: algebra_simps)
  then show ?thesis
    using False by (simp add: Add_def Let_def trim_stale_eq)
qed

lemma Add_window:
  "\<not> n \<le>s 0 \<Longrightarrow> window (snd (Add now n m))
     = dropWhile (\<lambda>s. sample_t s < time_Add now (- windowDur m))
         (window m @ [\<lparr>sample_t = now, sample_len = n\<rparr>])"
  by (simp add: Add_def Let_def trim_stale_eq)

lemma final_total:
  "total_bytes m = sum_list (map sample_len (window m))
   \<Longrightarrow> total_bytes (final m cs) = sum_list (map sample_len (window (final m cs)))"
proof (induction cs arbitrary: m)
  case Nil
  then show ?case by simp
next
  case (Cons c cs)
  obtain now n where c: "c = (now, n)" by (cases c)
  show ?case
    unfolding c final.simps
    by (rule Cons.IH) (rule Add_total [OF Cons.prems])
qed

subsection \<open>Runs, one call at a time\<close>

lemma final_snoc: "final m (cs @ [(now, n)]) = snd (Add now n (final m cs))"
  by (induction m cs rule: final.induct) auto

lemma run_snoc: "run m (cs @ [(now, n)]) = run m cs @ [fst (Add now n (final m cs))]"
  by (induction m cs rule: run.induct) auto

lemma admissions_snoc:
  "admissions m (cs @ [(now, n)]) =
     admissions m cs
       @ [if n \<le>s 0 then None else Some (sint (total_bytes (snd (Add now n (final m cs)))))]"
  by (induction m cs rule: admissions.induct) auto

lemma length_run [simp]: "length (run m cs) = length cs"
  by (induction m cs rule: run.induct) auto

lemma length_admissions [simp]: "length (admissions m cs) = length cs"
  by (induction m cs rule: admissions.induct) auto

lemma Add_threshold [simp]: "threshold (snd (Add now n m)) = threshold m"
  by (simp add: Add_def Let_def split: prod.splits)

lemma final_threshold [simp]: "threshold (final m cs) = threshold m"
  by (induction m cs rule: final.induct) auto

lemma Add_windowDur [simp]: "windowDur (snd (Add now n m)) = windowDur m"
  by (simp add: Add_def Let_def split: prod.splits)

lemma final_windowDur [simp]: "windowDur (final m cs) = windowDur m"
  by (induction m cs rule: final.induct) auto

text \<open>The result and the two flags after one call, in terms of the total the call leaves.\<close>

lemma Add_rejected: "n \<le>s 0 \<Longrightarrow> Add now n m = (False, m)"
  by (simp add: Add_def)

lemma Add_result:
  "\<not> n \<le>s 0 \<Longrightarrow> fst (Add now n m) \<longleftrightarrow>
     \<not> triggered m \<and> sint (threshold m) \<le> sint (total_bytes (snd (Add now n m))) \<and> pendingTick m"
  by (simp add: Add_def Let_def word_sle_eq split: prod.splits)

lemma Add_triggered:
  "triggered (snd (Add now n m)) \<longleftrightarrow> triggered m \<or> fst (Add now n m)"
  by (simp add: Add_def Let_def split: prod.splits)

lemma Add_pendingTick:
  "\<not> n \<le>s 0 \<Longrightarrow> \<not> triggered (snd (Add now n m)) \<Longrightarrow>
     pendingTick (snd (Add now n m))
       \<longleftrightarrow> sint (threshold m) \<le> sint (total_bytes (snd (Add now n m)))"
  by (simp add: Add_def Let_def word_sle_eq split: prod.splits if_splits)

subsection \<open>The firing discipline\<close>

lemma prev_reached_append:
  "n \<le> length T \<Longrightarrow> prev_reached thr (T @ U) n = prev_reached thr T n"
  by (auto simp add: prev_reached_def nth_append)

lemma reached_twice_append:
  "i < length T \<Longrightarrow> reached_twice thr (T @ U) i = reached_twice thr T i"
  by (simp add: reached_twice_def prev_reached_append nth_append)

lemma reached_twice_last:
  "reached_twice thr (T @ [t]) (length T)
     \<longleftrightarrow> (\<exists>x. t = Some x \<and> thr \<le> x) \<and> prev_reached thr T (length T)"
  by (simp add: reached_twice_def prev_reached_append)

lemma prev_reached_snoc_None:
  "prev_reached thr (T @ [None]) (Suc (length T)) = prev_reached thr T (length T)"
proof
  assume "prev_reached thr (T @ [None]) (Suc (length T))"
  then obtain j y where j: "j < Suc (length T)" "(T @ [None]) ! j = Some y" "thr \<le> y"
    and k: "\<forall>k. j < k \<and> k < Suc (length T) \<longrightarrow> (T @ [None]) ! k = None"
    by (auto simp add: prev_reached_def)
  have "j \<noteq> length T" using j(2) by auto
  then have jl: "j < length T" using j(1) by simp
  moreover have "T ! j = Some y" using j(2) jl by (simp add: nth_append)
  moreover have "\<forall>k. j < k \<and> k < length T \<longrightarrow> T ! k = None"
  proof (intro allI impI)
    fix k assume "j < k \<and> k < length T"
    then show "T ! k = None" using k [rule_format, of k] by (simp add: nth_append)
  qed
  ultimately show "prev_reached thr T (length T)"
    using j(3) by (auto simp add: prev_reached_def)
next
  assume "prev_reached thr T (length T)"
  then obtain j y where j: "j < length T" "T ! j = Some y" "thr \<le> y"
    and k: "\<forall>k. j < k \<and> k < length T \<longrightarrow> T ! k = None"
    by (auto simp add: prev_reached_def)
  have "\<forall>k. j < k \<and> k < Suc (length T) \<longrightarrow> (T @ [None]) ! k = None"
    using k by (auto simp add: nth_append)
  moreover have "(T @ [None]) ! j = Some y" using j by (simp add: nth_append)
  ultimately show "prev_reached thr (T @ [None]) (Suc (length T))"
    using j unfolding prev_reached_def by (intro exI [of _ j]) auto
qed

lemma prev_reached_snoc_Some:
  "prev_reached thr (T @ [Some x]) (Suc (length T)) = (thr \<le> x)"
proof
  assume "prev_reached thr (T @ [Some x]) (Suc (length T))"
  then obtain j y where j: "j < Suc (length T)" "(T @ [Some x]) ! j = Some y" "thr \<le> y"
    and k: "\<forall>k. j < k \<and> k < Suc (length T) \<longrightarrow> (T @ [Some x]) ! k = None"
    by (auto simp add: prev_reached_def)
  have "j = length T"
  proof (rule ccontr)
    assume "j \<noteq> length T"
    then have "j < length T" using j(1) by simp
    then have "(T @ [Some x]) ! length T = None" using k [rule_format, of "length T"] by blast
    then show False by simp
  qed
  then show "thr \<le> x" using j by simp
next
  assume "thr \<le> x"
  then show "prev_reached thr (T @ [Some x]) (Suc (length T))"
    unfolding prev_reached_def by (intro exI [of _ "length T"]) auto
qed

lemma first_one:
  assumes "\<forall>i<L. \<not> (P i \<and> (\<forall>i'<i. \<not> P i'))"
  shows "\<forall>i<L. \<not> P (i :: nat)"
proof (intro allI impI)
  fix i assume "i < L"
  then show "\<not> P i"
  proof (induction i rule: less_induct)
    case (less i)
    then have "\<forall>i'<i. \<not> P i'" by auto
    then show ?case using assms less.prems by auto
  qed
qed

lemma monitor_invariant:
  fixes thw w :: "64 word" and cs :: "(int \<times> 64 word) list"
  defines "m0 \<equiv> NewBandwidthMonitor thw w" and "thr \<equiv> sint thw"
  shows "(triggered (final m0 cs) \<longleftrightarrow> (\<exists>i<length cs. run m0 cs ! i))
       \<and> (\<not> triggered (final m0 cs) \<longrightarrow>
            (pendingTick (final m0 cs) \<longleftrightarrow> prev_reached thr (admissions m0 cs) (length cs)))
       \<and> (\<forall>i<length cs. run m0 cs ! i \<longleftrightarrow>
            reached_twice thr (admissions m0 cs) i
            \<and> (\<forall>i'<i. \<not> reached_twice thr (admissions m0 cs) i'))"
proof (induction cs rule: rev_induct)
  case Nil
  show ?case by (simp add: m0_def NewBandwidthMonitor_def prev_reached_def)
next
  case (snoc c cs)
  obtain now n where c: "c = (now, n)" by (cases c)
  define m where "m = final m0 cs"
  define R where "R = run m0 cs"
  define T where "T = admissions m0 cs"
  define L where "L = length cs"
  define r where "r = fst (Add now n m)"
  define m' where "m' = snd (Add now n m)"
  define t where "t = (if n \<le>s 0 then None else Some (sint (total_bytes m')))"
  have A: "triggered m \<longleftrightarrow> (\<exists>i<L. R ! i)"
    and B: "\<not> triggered m \<longrightarrow> (pendingTick m \<longleftrightarrow> prev_reached thr T L)"
    and C: "\<forall>i<L. R ! i \<longleftrightarrow> reached_twice thr T i \<and> (\<forall>i'<i. \<not> reached_twice thr T i')"
    using snoc.IH by (simp_all add: m_def R_def T_def L_def)
  have lens: "length R = L" "length T = L" by (simp_all add: R_def T_def L_def)
  have thr: "sint (threshold m) = thr" by (simp add: m_def m0_def thr_def NewBandwidthMonitor_def)
  have fin: "final m0 (cs @ [c]) = m'" by (simp add: c final_snoc m'_def m_def)
  have run: "run m0 (cs @ [c]) = R @ [r]" by (simp add: c run_snoc r_def m_def R_def)
  have adm: "admissions m0 (cs @ [c]) = T @ [t]"
    by (simp add: c admissions_snoc t_def m'_def m_def T_def)
  have F1: "\<And>i. i < L \<Longrightarrow> (R @ [r]) ! i = R ! i"
    and F1': "\<And>i. i < L \<Longrightarrow> reached_twice thr (T @ [t]) i = reached_twice thr T i"
    using lens by (simp_all add: nth_append reached_twice_append)
  have F2: "reached_twice thr (T @ [t]) L \<longleftrightarrow> (\<exists>x. t = Some x \<and> thr \<le> x) \<and> prev_reached thr T L"
    using reached_twice_last [of thr T t] lens by simp
  have F3: "\<forall>i<L. \<not> reached_twice thr T i" if "\<not> triggered m"
  proof (rule first_one)
    show "\<forall>i<L. \<not> (reached_twice thr T i \<and> (\<forall>i'<i. \<not> reached_twice thr T i'))"
      using that A C by auto
  qed
  have F4: "\<exists>i<L. reached_twice thr T i" if "triggered m"
    using that A C by auto
  have key: "r \<longleftrightarrow> reached_twice thr (T @ [t]) L \<and> (\<forall>i'<L. \<not> reached_twice thr (T @ [t]) i')"
  proof (cases "n \<le>s 0")
    case True
    then have "\<not> r" "t = None" by (simp_all add: r_def t_def Add_rejected)
    then show ?thesis using F2 by simp
  next
    case False
    have t: "t = Some (sint (total_bytes m'))" using False by (simp add: t_def)
    have rr: "r \<longleftrightarrow> \<not> triggered m \<and> thr \<le> sint (total_bytes m') \<and> pendingTick m"
      using Add_result [OF False, of now m] thr by (simp add: r_def m'_def)
    show ?thesis
    proof (cases "triggered m")
      case True
      then obtain i where "i < L" "reached_twice thr T i" using F4 by auto
      then have "\<not> (\<forall>i'<L. \<not> reached_twice thr (T @ [t]) i')" using F1' by auto
      then show ?thesis using rr True by simp
    next
      case False
      have "\<forall>i'<L. \<not> reached_twice thr (T @ [t]) i'" using F3 [OF False] F1' by simp
      then show ?thesis using rr False B F2 t by auto
    qed
  qed
  have A': "triggered m' \<longleftrightarrow> (\<exists>i<Suc L. (R @ [r]) ! i)"
  proof -
    have "triggered m' \<longleftrightarrow> triggered m \<or> r"
      using Add_triggered [of now n m] by (simp add: m'_def r_def)
    moreover have "(\<exists>i<L. (R @ [r]) ! i) \<longleftrightarrow> (\<exists>i<L. R ! i)"
      using F1 by blast
    moreover have "(R @ [r]) ! L = r"
      using lens by (simp add: nth_append)
    moreover have "(\<exists>i<Suc L. (R @ [r]) ! i) \<longleftrightarrow> (R @ [r]) ! L \<or> (\<exists>i<L. (R @ [r]) ! i)"
      by (rule Ex_less_Suc)
    ultimately show ?thesis using A by blast
  qed
  have B': "\<not> triggered m' \<longrightarrow> (pendingTick m' \<longleftrightarrow> prev_reached thr (T @ [t]) (Suc L))"
  proof (cases "n \<le>s 0")
    case True
    then have "m' = m" "t = None" by (simp_all add: m'_def t_def Add_rejected)
    then show ?thesis using B prev_reached_snoc_None [of thr T] lens by simp
  next
    case False
    have t: "t = Some (sint (total_bytes m'))" using False by (simp add: t_def)
    show ?thesis
      using Add_pendingTick [OF False, of now m] thr
        prev_reached_snoc_Some [of thr T "sint (total_bytes m')"] lens
      by (simp add: t m'_def)
  qed
  have C': "\<forall>i<Suc L. (R @ [r]) ! i \<longleftrightarrow>
              reached_twice thr (T @ [t]) i \<and> (\<forall>i'<i. \<not> reached_twice thr (T @ [t]) i')"
  proof (intro allI impI)
    fix i assume "i < Suc L"
    then consider "i < L" | "i = L" by linarith
    then show "(R @ [r]) ! i \<longleftrightarrow>
              reached_twice thr (T @ [t]) i \<and> (\<forall>i'<i. \<not> reached_twice thr (T @ [t]) i')"
    proof cases
      case 1
      then have "\<forall>i'<i. reached_twice thr (T @ [t]) i' = reached_twice thr T i'"
        using F1' by simp
      then show ?thesis using 1 F1 [OF 1] F1' [OF 1] C by simp
    next
      case 2
      then show ?thesis using key lens by (simp add: nth_append)
    qed
  qed
  show ?case
    unfolding fin run adm using A' B' C' by (simp add: L_def)
qed


subsection \<open>The total the monitor holds is the rolling-window total\<close>

lemma dropWhile_dropWhile_append:
  assumes "\<And>x. P x \<Longrightarrow> Q x"
  shows "dropWhile Q (dropWhile P xs @ ys) = dropWhile Q (xs @ ys)"
  using assms by (induction xs) auto

lemma sorted_dropWhile_filter:
  fixes f :: "'a \<Rightarrow> int"
  assumes "sorted (map f xs)"
  shows "dropWhile (\<lambda>x. f x < c) xs = filter (\<lambda>x. c \<le> f x) xs"
  using assms
proof (induction xs)
  case Nil
  then show ?case by simp
next
  case (Cons x xs)
  show ?case
  proof (cases "f x < c")
    case True
    then show ?thesis using Cons by simp
  next
    case False
    then have "\<forall>y\<in>set xs. c \<le> f y" using Cons.prems by auto
    then have "filter (\<lambda>x. c \<le> f x) xs = xs" by (simp add: filter_id_conv)
    then show ?thesis using False by simp
  qed
qed

lemma sint_sum_list:
  fixes ws :: "64 word list"
  assumes "\<forall>x\<in>set ws. 0 \<le> sint x" and "sum_list (map sint ws) < 2 ^ 63"
  shows "sint (sum_list ws) = sum_list (map sint ws)"
proof -
  have "sum_list ws = word_of_int (sum_list (map sint ws))"
    by (induction ws) simp_all
  moreover have "0 \<le> sum_list (map sint ws)"
    using assms(1) by (intro sum_list_nonneg) auto
  ultimately show ?thesis
    using assms(2) by (simp add: sint_sbintrunc' signed_take_bit_int_eq_self)
qed

definition mk_sample :: "int \<times> 64 word \<Rightarrow> bandwidthSample" where
  "mk_sample c = \<lparr>sample_t = fst c, sample_len = snd c\<rparr>"

lemma dropWhile_mk_sample:
  "dropWhile (\<lambda>s. sample_t s < c) (map mk_sample xs)
     = map mk_sample (dropWhile (\<lambda>x. fst x < c) xs)"
  by (induction xs) (simp_all add: mk_sample_def)

lemma admitted_snoc:
  "admitted (cs @ [(now, n)]) = (if n \<le>s 0 then admitted cs else admitted cs @ [(now, n)])"
  by (simp add: admitted_def word_sle_eq word_sless_alt)

lemma window_invariant:
  assumes "sorted (map fst cs)" and "- (2 ^ 63) < sint w"
  shows "window (final (NewBandwidthMonitor thr w) cs) =
           map mk_sample (dropWhile (\<lambda>c. fst c < fst (last (admitted cs)) - sint w) (admitted cs))"
  using assms(1)
proof (induction cs rule: rev_induct)
  case Nil
  show ?case by (simp add: NewBandwidthMonitor_def admitted_def)
next
  case (snoc c cs)
  obtain now n where c: "c = (now, n)" by (cases c)
  let ?m0 = "NewBandwidthMonitor thr w"
  have srt: "sorted (map fst cs)" using snoc.prems by (simp add: sorted_append)
  have le_now: "\<forall>x\<in>set cs. fst x \<le> now" using snoc.prems by (auto simp add: sorted_append c)
  note IH = snoc.IH [OF srt]
  show ?case
  proof (cases "n \<le>s 0")
    case True
    then show ?thesis using IH by (simp add: c final_snoc Add_rejected admitted_snoc)
  next
    case False
    have neg: "sint (- w) = - sint w"
    proof -
      have "sint (- w) = signed_take_bit 63 (- sint w)" by (simp add: sint_word_ariths)
      moreover have "sint w < 2 ^ 63" using sint_lt [of w] by simp
      ultimately show ?thesis using assms(2) by (simp add: signed_take_bit_int_eq_self)
    qed
    let ?A = "admitted cs"
    let ?P = "\<lambda>c. fst c < fst (last ?A) - sint w"
    let ?Q = "\<lambda>c. fst c < now - sint w"
    have PQ: "?P x \<Longrightarrow> ?Q x" if "?A \<noteq> []" for x
    proof -
      have "last ?A \<in> set cs" using that last_in_set [of ?A] by (auto simp add: admitted_def)
      then have "fst (last ?A) \<le> now" using le_now by blast
      then show "?P x \<Longrightarrow> ?Q x" by simp
    qed
    have dd: "dropWhile ?Q (dropWhile ?P ?A @ [(now, n)]) = dropWhile ?Q (?A @ [(now, n)])"
    proof (cases "?A = []")
      case True
      then show ?thesis by simp
    next
      case False
      show ?thesis by (rule dropWhile_dropWhile_append) (rule PQ [OF False])
    qed
    have "window (final ?m0 (cs @ [c]))
            = dropWhile (\<lambda>s. sample_t s < now - sint w)
                (map mk_sample (dropWhile ?P ?A) @ [mk_sample (now, n)])"
      using False IH mk_sample_def [of "(now, n)"]
      by (simp add: c final_snoc Add_window time_Add_def neg NewBandwidthMonitor_def)
    also have "\<dots> = dropWhile (\<lambda>s. sample_t s < now - sint w)
                          (map mk_sample (dropWhile ?P ?A @ [(now, n)]))"
      by simp
    also have "\<dots> = map mk_sample (dropWhile ?Q (dropWhile ?P ?A @ [(now, n)]))"
      by (rule dropWhile_mk_sample)
    also have "\<dots> = map mk_sample (dropWhile ?Q (?A @ [(now, n)]))"
      by (simp only: dd)
    finally show ?thesis
      using False by (simp add: c admitted_snoc)
  qed
qed

lemma total_is_rolling_total:
  assumes "sorted (map fst (cs @ [(now, n)]))" and "- (2 ^ 63) < sint w" and "\<not> n \<le>s 0"
    and "rolling_total (sint w) (cs @ [(now, n)]) < 2 ^ 63"
  shows "sint (total_bytes (final (NewBandwidthMonitor thr w) (cs @ [(now, n)])))
           = rolling_total (sint w) (cs @ [(now, n)])"
proof -
  let ?cs = "cs @ [(now, n)]"
  let ?m = "final (NewBandwidthMonitor thr w) ?cs"
  let ?F = "filter (\<lambda>c. now - sint w \<le> fst c) (admitted ?cs)"
  have adm: "admitted ?cs = admitted cs @ [(now, n)]"
    using assms(3) by (simp add: admitted_snoc)
  have "sorted (map fst (admitted ?cs))"
    unfolding admitted_def using assms(1) by (rule sorted_filter)
  then have "dropWhile (\<lambda>c. fst c < now - sint w) (admitted ?cs) = ?F"
    by (rule sorted_dropWhile_filter)
  then have win: "window ?m = map mk_sample ?F"
    using window_invariant [OF assms(1) assms(2), of thr] by (simp add: adm)
  have "total_bytes (NewBandwidthMonitor thr w)
          = sum_list (map sample_len (window (NewBandwidthMonitor thr w)))"
    by (simp add: NewBandwidthMonitor_def)
  then have "total_bytes ?m = sum_list (map sample_len (window ?m))"
    by (rule final_total)
  then have tot: "total_bytes ?m = sum_list (map snd ?F)"
    by (simp add: win comp_def mk_sample_def)
  have rt: "rolling_total (sint w) ?cs = sum_list (map sint (map snd ?F))"
    by (simp add: rolling_total_def comp_def)
  have pos: "\<forall>x\<in>set (map snd ?F). 0 \<le> sint x"
    by (auto simp add: admitted_def word_sless_alt)
  show ?thesis
    unfolding tot rt
    by (rule sint_sum_list [OF pos]) (use assms(4) rt in simp)
qed

lemma totals_snoc:
  "totals dur (cs @ [c]) =
     totals dur cs @ [if 0 <s snd c then Some (rolling_total dur (cs @ [c])) else None]"
  by (simp add: totals_def nth_append)

lemma admissions_are_totals:
  assumes "sorted (map fst cs)" and "- (2 ^ 63) < sint w"
    and "\<forall>k<length cs. 0 <s snd (cs ! k) \<longrightarrow> rolling_total (sint w) (take (Suc k) cs) < 2 ^ 63"
  shows "admissions (NewBandwidthMonitor thr w) cs = totals (sint w) cs"
  using assms(1,3)
proof (induction cs rule: rev_induct)
  case Nil
  show ?case by (simp add: totals_def)
next
  case (snoc c cs)
  obtain now n where c: "c = (now, n)" by (cases c)
  have srt: "sorted (map fst cs)" using snoc.prems(1) by (simp add: sorted_append)
  have bnd: "\<forall>k<length cs. 0 <s snd (cs ! k) \<longrightarrow> rolling_total (sint w) (take (Suc k) cs) < 2 ^ 63"
  proof (intro allI impI)
    fix k assume k: "k < length cs" and a: "0 <s snd (cs ! k)"
    have "k < length (cs @ [c])" using k by simp
    moreover have "0 <s snd ((cs @ [c]) ! k)" using k a by (simp add: nth_append)
    ultimately have "rolling_total (sint w) (take (Suc k) (cs @ [c])) < 2 ^ 63"
      using snoc.prems(2) by blast
    then show "rolling_total (sint w) (take (Suc k) cs) < 2 ^ 63" using k by simp
  qed
  note IH = snoc.IH [OF srt bnd]
  show ?case
  proof (cases "n \<le>s 0")
    case True
    then have "\<not> 0 <s n" by (simp add: word_sle_eq word_sless_alt)
    then show ?thesis using True IH by (simp add: c admissions_snoc totals_snoc)
  next
    case False
    then have a: "0 <s n" by (simp add: word_sle_eq word_sless_alt)
    have "length cs < length (cs @ [c])" by simp
    moreover have "0 <s snd ((cs @ [c]) ! length cs)" using a by (simp add: c)
    ultimately have "rolling_total (sint w) (take (Suc (length cs)) (cs @ [c])) < 2 ^ 63"
      using snoc.prems(2) by blast
    then have b: "rolling_total (sint w) (cs @ [(now, n)]) < 2 ^ 63" by (simp add: c)
    have "sint (total_bytes (final (NewBandwidthMonitor thr w) (cs @ [(now, n)])))
            = rolling_total (sint w) (cs @ [(now, n)])"
      using snoc.prems(1) assms(2) False b unfolding c by (rule total_is_rolling_total)
    then show ?thesis
      using False a IH by (simp add: c admissions_snoc totals_snoc final_snoc)
  qed
qed

text \<open>
  Claim C4 as stated fails at the boundary: the monitor compares with \<open>\<le>\<close>, so a rolling
  total equal to the threshold counts. With threshold 10 and a window of 5 nanoseconds, the
  first admission leaves the rolling total at 10, which is not above 10, and the next call
  returns true all the same.
\<close>

theorem bandwidth_monitor_fires_at_threshold:
  "run (NewBandwidthMonitor 10 5) [(0, 10), (1, 1)] = [False, True]
   \<and> totals (sint (5 :: 64 word)) [(0, 10), (1, 1)] = [Some 10, Some 11]
   \<and> \<not> sint (10 :: 64 word) < 10"
  by (simp add: Add_def NewBandwidthMonitor_def Let_def time_Add_def totals_def rolling_total_def
      admitted_def word_sle_eq word_sless_alt)

text \<open>
  Claim C4, amended to "at or above". Take any sequence of calls on a new monitor during
  which the clock does not go backwards, with a window duration other than the least
  \<^verbatim>\<open>int64\<close> and with every rolling-window total below 2^63. Then a call returns true
  exactly when it is the first admission whose rolling-window total is at or above the
  threshold while the total at the immediately preceding admission was too; no call after
  a true result returns true, so there is at most one; and after every admission the total
  the monitor holds is the rolling-window total: the sum of the byte counts of the admitted
  calls so far that are not older than the window duration.
\<close>

theorem bandwidth_monitor_fires_once:
  assumes "sorted (map fst cs)"
    and "- (2 ^ 63) < sint w"
    and "\<forall>k<length cs. 0 <s snd (cs ! k) \<longrightarrow> rolling_total (sint w) (take (Suc k) cs) < 2 ^ 63"
  shows "(\<forall>i<length cs.
            run (NewBandwidthMonitor thr w) cs ! i \<longleftrightarrow>
              reached_twice (sint thr) (totals (sint w) cs) i
              \<and> (\<forall>i'<i. \<not> reached_twice (sint thr) (totals (sint w) cs) i'))
       \<and> (\<forall>i j. i < j \<and> j < length cs \<and> run (NewBandwidthMonitor thr w) cs ! i
              \<longrightarrow> \<not> run (NewBandwidthMonitor thr w) cs ! j)
       \<and> (\<forall>k<length cs. 0 <s snd (cs ! k) \<longrightarrow>
              sint (total_bytes (final (NewBandwidthMonitor thr w) (take (Suc k) cs)))
                = rolling_total (sint w) (take (Suc k) cs))"
proof -
  let ?M = "NewBandwidthMonitor thr w"
  let ?T = "totals (sint w) cs"
  have T: "admissions ?M cs = ?T"
    using assms by (rule admissions_are_totals)
  have C: "\<forall>i<length cs. run ?M cs ! i \<longleftrightarrow>
             reached_twice (sint thr) ?T i \<and> (\<forall>i'<i. \<not> reached_twice (sint thr) ?T i')"
    using monitor_invariant [of thr w cs] unfolding T by blast
  have once: "\<forall>i j. i < j \<and> j < length cs \<and> run ?M cs ! i \<longrightarrow> \<not> run ?M cs ! j"
  proof (intro allI impI)
    fix i j assume h: "i < j \<and> j < length cs \<and> run ?M cs ! i"
    then have "reached_twice (sint thr) ?T i" using C by auto
    then have "\<not> (\<forall>i'<j. \<not> reached_twice (sint thr) ?T i')" using h by blast
    then show "\<not> run ?M cs ! j" using C h by blast
  qed
  have tot: "\<forall>k<length cs. 0 <s snd (cs ! k) \<longrightarrow>
              sint (total_bytes (final ?M (take (Suc k) cs))) = rolling_total (sint w) (take (Suc k) cs)"
  proof (intro allI impI)
    fix k assume k: "k < length cs" and a: "0 <s snd (cs ! k)"
    obtain now n where c: "cs ! k = (now, n)" by (cases "cs ! k")
    have tk: "take (Suc k) cs = take k cs @ [(now, n)]"
      using k c by (simp add: take_Suc_conv_app_nth)
    have "sorted (map fst (take (Suc k) cs))"
      using assms(1) by (simp add: sorted_wrt_take flip: take_map)
    then have s: "sorted (map fst (take k cs @ [(now, n)]))" by (simp only: tk)
    have n: "\<not> n \<le>s 0" using a c by (simp add: word_sle_eq word_sless_alt)
    have b: "rolling_total (sint w) (take k cs @ [(now, n)]) < 2 ^ 63"
      using assms(3) k a by (simp flip: tk)
    show "sint (total_bytes (final ?M (take (Suc k) cs))) = rolling_total (sint w) (take (Suc k) cs)"
      unfolding tk using s assms(2) n b by (rule total_is_rolling_total)
  qed
  show ?thesis using C once tot by (intro conjI)
qed

text \<open>A window of 5 nanoseconds and a threshold of 12 bytes: the burst of 12 bytes at
  time 0 has left the window when the next call comes at time 6, so the count of
  consecutive admissions at the threshold starts again at time 7 and the monitor fires at
  time 8.\<close>

theorem bandwidth_monitor_fires_once_witness:
  "sorted (map fst [(0, 12), (6, 1), (7, 12), (8 :: int, 1 :: 64 word)])
   \<and> - (2 ^ 63) < sint (5 :: 64 word)
   \<and> totals (sint (5 :: 64 word)) [(0, 12), (6, 1), (7, 12), (8, 1)]
       = [Some 12, Some 1, Some 13, Some 14]
   \<and> run (NewBandwidthMonitor 12 5) [(0, 12), (6, 1), (7, 12), (8, 1)]
       = [False, False, False, True]
   \<and> reached_twice (sint (12 :: 64 word)) (totals (sint (5 :: 64 word)) [(0, 12), (6, 1), (7, 12), (8, 1)]) 3
   \<and> sint (total_bytes (final (NewBandwidthMonitor 12 5) (take (Suc 3) [(0, 12), (6, 1), (7, 12), (8, 1)])))
       = 14"
proof -
  let ?cs = "[(0, 12), (6, 1), (7, 12), (8 :: int, 1 :: 64 word)]"
  let ?M = "NewBandwidthMonitor 12 5"
  have h1: "sorted (map fst ?cs)" by simp
  have h2: "- (2 ^ 63) < sint (5 :: 64 word)" by simp
  have t: "totals (sint (5 :: 64 word)) ?cs = [Some 12, Some 1, Some 13, Some 14]"
    by (simp add: totals_def rolling_total_def admitted_def word_sless_alt upt_rec)
  have r0: "rolling_total (sint (5 :: 64 word)) (take (Suc 0) ?cs) = 12"
    and r1: "rolling_total (sint (5 :: 64 word)) (take (Suc 1) ?cs) = 1"
    and r2: "rolling_total (sint (5 :: 64 word)) (take (Suc 2) ?cs) = 13"
    and r3: "rolling_total (sint (5 :: 64 word)) (take (Suc 3) ?cs) = 14"
    by (simp_all add: rolling_total_def admitted_def word_sless_alt)
  have h3: "\<forall>k<length ?cs. 0 <s snd (?cs ! k) \<longrightarrow>
              rolling_total (sint (5 :: 64 word)) (take (Suc k) ?cs) < 2 ^ 63"
  proof (intro allI impI)
    fix k assume "k < length ?cs"
    then consider "k = 0" | "k = 1" | "k = 2" | "k = 3" by force
    then show "rolling_total (sint (5 :: 64 word)) (take (Suc k) ?cs) < 2 ^ 63"
      using r0 r1 r2 r3 by cases simp_all
  qed
  have r: "run ?M ?cs = [False, False, False, True]"
    by (simp add: Add_def NewBandwidthMonitor_def Let_def time_Add_def word_sle_eq)
  note inst = bandwidth_monitor_fires_once [where cs = ?cs and w = 5 and thr = 12, OF h1 h2 h3]
  have l: "3 < length ?cs" by simp
  have "run ?M ?cs ! 3 \<longrightarrow> reached_twice (sint (12 :: 64 word)) (totals (sint (5 :: 64 word)) ?cs) 3"
    using inst [THEN conjunct1, rule_format, OF l] by blast
  moreover have "run ?M ?cs ! 3" by (simp only: r) simp
  ultimately have rt: "reached_twice (sint (12 :: 64 word)) (totals (sint (5 :: 64 word)) ?cs) 3"
    by (rule mp)
  have a: "0 <s snd (?cs ! 3)" by (simp add: word_sless_alt)
  have "sint (total_bytes (final ?M (take (Suc 3) ?cs)))
          = rolling_total (sint (5 :: 64 word)) (take (Suc 3) ?cs)"
    using inst [THEN conjunct2, THEN conjunct2, rule_format, OF l a] .
  then have f: "sint (total_bytes (final ?M (take (Suc 3) ?cs))) = 14"
    by (simp only: r3)
  show ?thesis
    using h1 h2 t r rt f by (intro conjI)
qed

section \<open>The control connection (internal/tunnel/control_conn.go)\<close>

definition controlVersion :: byte where
  "controlVersion = 0x01"

definition hmacLen :: nat where
  "hmacLen = 16"

definition controlMagic :: "byte list" where
  "controlMagic = [0xF7, 0x48, 0x42, 0x43]"

text \<open>\<^verbatim>\<open>bytes.Index\<close>: the first position where \<open>sep\<close> occurs, \<open>None\<close> for -1.\<close>

fun bytes_Index :: "byte list \<Rightarrow> byte list \<Rightarrow> nat option" where
  "bytes_Index [] sep = (if sep = [] then Some 0 else None)"
| "bytes_Index (x # xs) sep =
     (if prefix sep (x # xs) then Some 0 else map_option Suc (bytes_Index xs sep))"

text \<open>\<^verbatim>\<open>binary.BigEndian.Uint16\<close>.\<close>

definition Uint16 :: "byte list \<Rightarrow> 16 word" where
  "Uint16 b = ucast (b ! 1) OR push_bit 8 (ucast (b ! 0))"

definition appendData :: "'h ControlConn \<Rightarrow> byte list \<Rightarrow> 'h ControlConn" where
  "appendData c b =
     (if length b = 0 then c
      else (let c1 = c\<lparr>dataBuf := dataBuf c @ b\<rparr>
            in case onData c1 of
                 None \<Rightarrow> c1
               | Some f \<Rightarrow> c1\<lparr>world := f (int (length b)) (world c1)\<rparr>))"

text \<open>HMAC-SHA256 is library code: \<open>hm key message\<close> is the 32-byte tag.\<close>

definition verifyMAC ::
  "(byte list \<Rightarrow> byte list \<Rightarrow> byte list) \<Rightarrow> 'h ControlConn \<Rightarrow> byte list \<Rightarrow> byte list \<Rightarrow> bool" where
  "verifyMAC hm c body macBytes =
     (let expected = hm (hmacKey c) body
      in take hmacLen expected = macBytes)"

lemma readBuf_appendData [simp]: "readBuf (appendData c b) = readBuf c"
  by (simp add: appendData_def Let_def split: option.splits)

text \<open>
  One round of the scanning loop of \<^verbatim>\<open>processBuffer\<close>: it either returns, with the
  connection as it leaves it, or goes round again.
\<close>

datatype 's round = Return 's | Continue 's

definition processBuffer_round ::
  "(byte list \<Rightarrow> byte list \<Rightarrow> byte list) \<Rightarrow> 'h ControlConn \<Rightarrow> 'h ControlConn round" where
  "processBuffer_round hm c =
     (case bytes_Index (readBuf c) controlMagic of
        None \<Rightarrow>
          Return ((if length (readBuf c) > 0 then appendData c (readBuf c) else c)\<lparr>readBuf := []\<rparr>)
      | Some idx \<Rightarrow>
          (let c1 = (if idx > 0
                     then (appendData c (take idx (readBuf c)))\<lparr>readBuf := drop idx (readBuf c)\<rparr>
                     else c)
           in if length (readBuf c1) < length controlMagic + 1 + 1 + 2 + hmacLen then Return c1
              else if take (length controlMagic) (readBuf c1) \<noteq> controlMagic then
                Continue ((appendData c1 (take 1 (readBuf c1)))\<lparr>readBuf := drop 1 (readBuf c1)\<rparr>)
              else
                (let version = readBuf c1 ! length controlMagic;
                     cmd = readBuf c1 ! (length controlMagic + 1);
                     payloadLen = unat (Uint16 (take 2 (drop (length controlMagic + 2) (readBuf c1))));
                     total = length controlMagic + 1 + 1 + 2 + payloadLen + hmacLen
                 in if length (readBuf c1) < total then Return c1
                    else
                      (let frame = take total (readBuf c1);
                           payload = take payloadLen (drop (length controlMagic + 4) frame);
                           macBytes = drop (total - hmacLen) frame;
                           ok = (version = controlVersion
                                 \<and> verifyMAC hm c1
                                     (take (total - hmacLen - length controlMagic)
                                        (drop (length controlMagic) frame))
                                     macBytes)
                       in if ok then
                            Continue
                              ((case handler c1 of
                                  None \<Rightarrow> c1
                                | Some h \<Rightarrow> c1\<lparr>world := h cmd payload (world c1)\<rparr>)
                               \<lparr>readBuf := drop total (readBuf c1)\<rparr>)
                          else
                            Continue
                              ((appendData c1 (take 1 (readBuf c1)))\<lparr>readBuf := drop 1 (readBuf c1)\<rparr>)))))"

lemma processBuffer_round_shrinks:
  "processBuffer_round hm c = Continue c' \<Longrightarrow> length (readBuf c') < length (readBuf c)"
  by (auto simp add: processBuffer_round_def controlMagic_def hmacLen_def Let_def
      split: if_splits option.splits)

function processBuffer ::
  "(byte list \<Rightarrow> byte list \<Rightarrow> byte list) \<Rightarrow> 'h ControlConn \<Rightarrow> 'h ControlConn" where
  "processBuffer hm c =
     (case processBuffer_round hm c of
        Return c' \<Rightarrow> c'
      | Continue c' \<Rightarrow> processBuffer hm c')"
  by pat_completeness auto
termination
  by (relation "measure (\<lambda>(hm, c). length (readBuf c))") (auto simp add: processBuffer_round_shrinks)

declare processBuffer.simps [simp del]

lemma appendData_readBuf_update:
  "appendData (c\<lparr>readBuf := x\<rparr>) b = (appendData c b)\<lparr>readBuf := x\<rparr>"
  by (simp add: appendData_def Let_def split: option.splits)





text \<open>A world that logs the calls of the two callbacks, a stand-in for HMAC-SHA256, and a
  control connection over them, for concrete runs.\<close>

datatype event = Control byte "byte list" | Data int

definition log_handler :: "byte \<Rightarrow> byte list \<Rightarrow> event list \<Rightarrow> event list" where
  "log_handler cmd payload w = w @ [Control cmd payload]"

definition log_onData :: "int \<Rightarrow> event list \<Rightarrow> event list" where
  "log_onData n w = w @ [Data n]"

definition toy_hmac :: "byte list \<Rightarrow> byte list \<Rightarrow> byte list" where
  "toy_hmac key msg = replicate 32 (of_nat (length key + length msg))"

definition sample_ctl :: "byte list list \<Rightarrow> event list ControlConn" where
  "sample_ctl chunks = NewControlConn chunks [1, 2, 3] (Some log_handler) (Some log_onData) []"





section \<open>Reading through the control connection\<close>

lemma base_appendData [simp]: "base (appendData c b) = base c"
  by (simp add: appendData_def Let_def split: option.splits)

lemma base_processBuffer_round:
  "processBuffer_round hm c = Return c' \<or> processBuffer_round hm c = Continue c' \<Longrightarrow> base c' = base c"
  by (auto simp add: processBuffer_round_def Let_def split: if_splits option.splits)

lemma base_processBuffer [simp]: "base (processBuffer hm c) = base c"
proof (induction hm c rule: processBuffer.induct)
  case (1 hm c)
  show ?case
  proof (cases "processBuffer_round hm c")
    case (Return c')
    then show ?thesis
      using base_processBuffer_round [of hm c c'] by (subst processBuffer.simps) simp
  next
    case (Continue c')
    then show ?thesis
      using base_processBuffer_round [of hm c c'] 1 [OF Continue]
      by (subst processBuffer.simps) simp
  qed
qed

text \<open>
  The loop at the head of \<^verbatim>\<open>Read\<close>: it reads chunks from the embedded connection until
  there is data to hand out or the connection reports an error. A read of the embedded
  connection returns its next chunk, and end of file once there is none.
\<close>

function Read_loop ::
  "(byte list \<Rightarrow> byte list \<Rightarrow> byte list) \<Rightarrow> 'h ControlConn \<Rightarrow> error option \<times> 'h ControlConn" where
  "Read_loop hm c =
     (if length (dataBuf c) \<noteq> 0 then (None, c)
      else (case base c of
              [] \<Rightarrow> (Some EOF, c)
            | buf # later \<Rightarrow>
                (let c0 = c\<lparr>base := later\<rparr>;
                     c1 = (if length buf > 0
                           then processBuffer hm (c0\<lparr>readBuf := readBuf c0 @ buf\<rparr>)
                           else c0)
                 in if length (dataBuf c1) > 0 then (None, c1) else Read_loop hm c1)))"
  by pat_completeness auto
termination
  by (relation "measure (\<lambda>(hm, c). length (base c))") auto

declare Read_loop.simps [simp del]

text \<open>\<open>Read\<close> into a buffer of \<open>len_p\<close> bytes: the error, or the bytes copied into it.\<close>

definition Read ::
  "(byte list \<Rightarrow> byte list \<Rightarrow> byte list) \<Rightarrow> nat \<Rightarrow> 'h ControlConn \<Rightarrow> (error + byte list) \<times> 'h ControlConn" where
  "Read hm len_p c =
     (case Read_loop hm c of
        (Some err, c1) \<Rightarrow> (Inl err, c1)
      | (None, c1) \<Rightarrow>
          (let n = min len_p (length (dataBuf c1))
           in (Inr (take n (dataBuf c1)),
               c1\<lparr>dataBuf := (if n = length (dataBuf c1) then [] else drop n (dataBuf c1))\<rparr>)))"

text \<open>Successive reads into buffers of the given sizes, up to the first error: the bytes
  returned, the error if there was one, and the connection afterwards.\<close>

fun Reads ::
  "(byte list \<Rightarrow> byte list \<Rightarrow> byte list) \<Rightarrow> nat list \<Rightarrow> 'h ControlConn
     \<Rightarrow> byte list \<times> error option \<times> 'h ControlConn" where
  "Reads hm [] c = ([], None, c)"
| "Reads hm (n # ns) c =
     (case Read hm n c of
        (Inl err, c1) \<Rightarrow> ([], Some err, c1)
      | (Inr d, c1) \<Rightarrow> (case Reads hm ns c1 of (ds, e, c2) \<Rightarrow> (d @ ds, e, c2)))"

text \<open>What the data callback has done to the world once the chunks \<open>chs\<close> have been
  forwarded: one call per non-empty chunk, with its length, in order.\<close>

definition reported :: "(int \<Rightarrow> 'h \<Rightarrow> 'h) option \<Rightarrow> byte list list \<Rightarrow> 'h \<Rightarrow> 'h" where
  "reported od chs w =
     foldl (\<lambda>w ch. if ch = [] then w
                    else (case od of None \<Rightarrow> w | Some f \<Rightarrow> f (int (length ch)) w)) w chs"

lemma bytes_Index_None: "\<not> sublist sep xs \<Longrightarrow> bytes_Index xs sep = None"
  by (induction xs) (auto simp add: sublist_Cons_right)

lemma processBuffer_no_magic:
  assumes "\<not> sublist controlMagic (readBuf c)"
  shows "processBuffer hm c =
           (if length (readBuf c) > 0 then appendData c (readBuf c) else c)\<lparr>readBuf := []\<rparr>"
  using bytes_Index_None [OF assms]
  by (subst processBuffer.simps) (simp add: processBuffer_round_def)

lemma no_magic_Cons:
  assumes "\<not> sublist m (concat (buf # later))"
  shows "\<not> sublist m buf" and "\<not> sublist m (concat later)"
proof -
  show "\<not> sublist m buf"
  proof
    assume "sublist m buf"
    then obtain ps ss where "buf = ps @ m @ ss" by (auto simp add: sublist_def)
    then have "concat (buf # later) = ps @ m @ (ss @ concat later)" by simp
    then show False using assms unfolding sublist_def by blast
  qed
  show "\<not> sublist m (concat later)"
  proof
    assume "sublist m (concat later)"
    then obtain ps ss where "concat later = ps @ m @ ss" by (auto simp add: sublist_def)
    then have "concat (buf # later) = (buf @ ps) @ m @ ss" by simp
    then show False using assms unfolding sublist_def by blast
  qed
qed

text \<open>The connection is in passthrough state: nothing is held back in the scan buffer and
  the magic occurs nowhere in what is still to come.\<close>

definition passthrough :: "'h ControlConn \<Rightarrow> bool" where
  "passthrough c \<longleftrightarrow> readBuf c = [] \<and> \<not> sublist controlMagic (concat (base c))"

lemma reported_append: "reported od (xs @ ys) w = reported od ys (reported od xs w)"
  by (simp add: reported_def)

lemma Read_loop_passthrough:
  assumes "passthrough c" and "Read_loop hm c = (e, c')"
  shows "passthrough c'
       \<and> dataBuf c' @ concat (base c') = dataBuf c @ concat (base c)
       \<and> (\<exists>used. base c = used @ base c' \<and> world c' = reported (onData c) used (world c))
       \<and> onData c' = onData c
       \<and> (case e of None \<Rightarrow> dataBuf c' \<noteq> []
                   | Some err \<Rightarrow> err = EOF \<and> dataBuf c' = [] \<and> base c' = [])"
  using assms
proof (induction hm c rule: Read_loop.induct)
  case (1 hm c)
  show ?case
  proof (cases "length (dataBuf c) \<noteq> 0")
    case True
    then have "e = None" "c' = c" using "1.prems"(2) by (simp_all add: Read_loop.simps [of hm c])
    then show ?thesis using True "1.prems"(1) by (auto simp add: reported_def)
  next
    case False
    then have empty: "dataBuf c = []" by simp
    show ?thesis
    proof (cases "base c")
      case Nil
      then have "e = Some EOF" "c' = c"
        using "1.prems"(2) False by (simp_all add: Read_loop.simps [of hm c])
      then show ?thesis using Nil empty "1.prems"(1) by (auto simp add: reported_def)
    next
      case (Cons buf later)
      define c0 where "c0 = c\<lparr>base := later\<rparr>"
      define c1 where "c1 = (if length buf > 0
                           then processBuffer hm (c0\<lparr>readBuf := readBuf c0 @ buf\<rparr>)
                           else c0)"
      have nm: "\<not> sublist controlMagic buf" "\<not> sublist controlMagic (concat later)"
        using "1.prems"(1) Cons no_magic_Cons [of controlMagic buf later]
        by (simp_all add: passthrough_def)
      have rb: "readBuf c = []" using "1.prems"(1) by (simp add: passthrough_def)
      have c1: "c1 = (if buf = [] then c0 else (appendData c0 buf)\<lparr>readBuf := []\<rparr>)"
      proof (cases "buf = []")
        case True
        then show ?thesis by (simp add: c1_def)
      next
        case False
        have "processBuffer hm (c0\<lparr>readBuf := buf\<rparr>)
                = (appendData (c0\<lparr>readBuf := buf\<rparr>) buf)\<lparr>readBuf := []\<rparr>"
          using processBuffer_no_magic [of "c0\<lparr>readBuf := buf\<rparr>" hm] nm(1) False by simp
        then show ?thesis
          using False rb by (simp add: c1_def c0_def appendData_readBuf_update)
      qed
      have c1_base: "base c1 = later" by (simp add: c1 c0_def)
      have c1_rb: "readBuf c1 = []" using rb by (simp add: c1 c0_def)
      have c1_data: "dataBuf c1 = buf"
        using empty by (simp add: c1 c0_def appendData_def Let_def split: option.splits)
      have c1_od: "onData c1 = onData c"
        by (simp add: c1 c0_def appendData_def Let_def split: option.splits)
      have c1_world: "world c1 = reported (onData c) [buf] (world c)"
        by (simp add: c1 c0_def appendData_def reported_def Let_def split: option.splits)
      have c1_pt: "passthrough c1" using c1_base c1_rb nm(2) by (simp add: passthrough_def)
      have step: "Read_loop hm c = (if length (dataBuf c1) > 0 then (None, c1) else Read_loop hm c1)"
        using False Cons by (subst Read_loop.simps) (simp add: c1_def c0_def Let_def)
      show ?thesis
      proof (cases "buf = []")
        case False
        then have "e = None" "c' = c1" using step "1.prems"(2) c1_data by simp_all
        moreover have "base c = [buf] @ base c1" using Cons c1_base by simp
        ultimately show ?thesis
          using c1_pt c1_data c1_base c1_od c1_world Cons empty False by auto
      next
        case True
        then have rl: "Read_loop hm c1 = (e, c')" using step "1.prems"(2) c1_data by simp
        have d0: "\<not> 0 < length (dataBuf c1)" using True c1_data by simp
        have IH: "passthrough c'
             \<and> dataBuf c' @ concat (base c') = dataBuf c1 @ concat (base c1)
             \<and> (\<exists>used. base c1 = used @ base c' \<and> world c' = reported (onData c1) used (world c1))
             \<and> onData c' = onData c1
             \<and> (case e of None \<Rightarrow> dataBuf c' \<noteq> []
                         | Some err \<Rightarrow> err = EOF \<and> dataBuf c' = [] \<and> base c' = [])"
          using "1.IH" [OF False Cons c0_def c1_def d0 c1_pt rl] .
        then obtain used where used: "base c1 = used @ base c'"
            "world c' = reported (onData c1) used (world c1)" by blast
        have "base c = (buf # used) @ base c'" using Cons c1_base used(1) by simp
        moreover have "world c' = reported (onData c) (buf # used) (world c)"
          using used(2) c1_od c1_world reported_append [of "onData c" "[buf]" used "world c"] by simp
        ultimately have "\<exists>u. base c = u @ base c' \<and> world c' = reported (onData c) u (world c)"
          by blast
        then show ?thesis
          using IH c1_data c1_base c1_od Cons empty True by simp
      qed
    qed
  qed
qed

lemma Read_passthrough:
  assumes "passthrough c" and "Read hm n c = (r, c')"
  shows "passthrough c'
       \<and> onData c' = onData c
       \<and> (\<exists>used. base c = used @ base c' \<and> world c' = reported (onData c) used (world c))
       \<and> (case r of
             Inr d \<Rightarrow> d @ dataBuf c' @ concat (base c') = dataBuf c @ concat (base c)
                       \<and> (0 < n \<longrightarrow> d \<noteq> [])
           | Inl err \<Rightarrow> err = EOF \<and> dataBuf c @ concat (base c) = []
                         \<and> dataBuf c' = [] \<and> base c' = [])"
proof -
  obtain e c1 where loop: "Read_loop hm c = (e, c1)" by (cases "Read_loop hm c")
  note L = Read_loop_passthrough [OF assms(1) loop]
  show ?thesis
  proof (cases e)
    case (Some err)
    then have rc: "r = Inl err" "c' = c1" using assms(2) loop by (simp_all add: Read_def)
    have fin: "err = EOF" "dataBuf c1 = []" "base c1 = []" using L Some by simp_all
    have "dataBuf c @ concat (base c) = []" using L fin by (metis append_Nil concat.simps(1))
    moreover have "\<exists>used. base c = used @ base c1 \<and> world c1 = reported (onData c) used (world c)"
      using L by blast
    moreover have "passthrough c1" "onData c1 = onData c" using L by blast+
    ultimately show ?thesis unfolding rc using fin by (simp only: sum.case simp_thms)
  next
    case None
    define k where "k = min n (length (dataBuf c1))"
    have r: "r = Inr (take k (dataBuf c1))"
      and c': "c' = c1\<lparr>dataBuf := (if k = length (dataBuf c1) then [] else drop k (dataBuf c1))\<rparr>"
      using assms(2) loop None by (auto simp add: Read_def Let_def k_def)
    have split: "take k (dataBuf c1) @ dataBuf c' = dataBuf c1"
      by (simp add: c')
    have ne: "dataBuf c1 \<noteq> []" using L None by simp
    have pos: "0 < n \<longrightarrow> take k (dataBuf c1) \<noteq> []"
      using ne by (simp add: k_def)
    have same: "base c' = base c1" "readBuf c' = readBuf c1" "world c' = world c1"
      "onData c' = onData c1"
      by (simp_all add: c')
    have "take k (dataBuf c1) @ dataBuf c' @ concat (base c') = dataBuf c @ concat (base c)"
      using L split same(1) by (metis append.assoc)
    then show ?thesis
      using L pos same by (simp add: r passthrough_def)
  qed
qed

lemma Reads_passthrough:
  assumes "passthrough c" and "Reads hm ns c = (out, e, c')"
  shows "out @ dataBuf c' @ concat (base c') = dataBuf c @ concat (base c)
       \<and> (\<exists>used. base c = used @ base c' \<and> world c' = reported (onData c) used (world c))
       \<and> (e \<noteq> None \<longrightarrow> e = Some EOF \<and> dataBuf c' = [] \<and> base c' = [])
       \<and> ((\<forall>n\<in>set ns. 0 < n) \<and> e = None \<longrightarrow> length ns \<le> length out)"
  using assms
proof (induction ns arbitrary: c out e c')
  case Nil
  then show ?case by (simp add: reported_def)
next
  case (Cons n ns)
  obtain r c1 where rd: "Read hm n c = (r, c1)" by (cases "Read hm n c")
  note R = Read_passthrough [OF Cons.prems(1) rd]
  show ?case
  proof (cases r)
    case (Inl err)
    then have res: "out = []" "e = Some err" "c' = c1" using Cons.prems(2) rd by simp_all
    have fin: "err = EOF" "dataBuf c @ concat (base c) = []" "dataBuf c1 = []" "base c1 = []"
      using R Inl by simp_all
    have "\<exists>used. base c = used @ base c1 \<and> world c1 = reported (onData c) used (world c)"
      using R by blast
    moreover have "[] @ dataBuf c1 @ concat (base c1) = dataBuf c @ concat (base c)"
      using fin by simp
    ultimately show ?thesis unfolding res using fin by blast
  next
    case (Inr d)
    obtain ds e2 c2 where rs: "Reads hm ns c1 = (ds, e2, c2)" by (cases "Reads hm ns c1") auto
    have res: "out = d @ ds" "e = e2" "c' = c2" using Cons.prems(2) rd Inr rs by simp_all
    have pt: "passthrough c1" using R by simp
    note IH = Cons.IH [OF pt rs]
    obtain u1 where u1: "base c = u1 @ base c1" "world c1 = reported (onData c) u1 (world c)"
      using R by blast
    obtain u2 where u2: "base c1 = u2 @ base c2" "world c2 = reported (onData c1) u2 (world c1)"
      using IH by blast
    have od: "onData c1 = onData c" using R by simp
    have "base c = (u1 @ u2) @ base c2" using u1(1) u2(1) by simp
    moreover have "world c2 = reported (onData c) (u1 @ u2) (world c)"
      using u1(2) u2(2) od by (simp add: reported_append)
    ultimately have used: "\<exists>used. base c = used @ base c2 \<and> world c2 = reported (onData c) used (world c)"
      by blast
    have d: "d @ dataBuf c1 @ concat (base c1) = dataBuf c @ concat (base c)" "0 < n \<longrightarrow> d \<noteq> []"
      using R Inr by simp_all
    have stream: "(d @ ds) @ dataBuf c2 @ concat (base c2) = dataBuf c @ concat (base c)"
      using IH d(1) by simp
    have prog: "(\<forall>n\<in>set (n # ns). 0 < n) \<and> e2 = None \<longrightarrow> length (n # ns) \<le> length (d @ ds)"
    proof
      assume a: "(\<forall>n\<in>set (n # ns). 0 < n) \<and> e2 = None"
      then have "length ns \<le> length ds" using IH by simp
      moreover have "d \<noteq> []" using a d(2) by simp
      then have "Suc 0 \<le> length d" by (cases d) simp_all
      ultimately show "length (n # ns) \<le> length (d @ ds)" by simp
    qed
    show ?thesis
      unfolding res using stream used IH prog by blast
  qed
qed

text \<open>
  Claim C10. The bytes the underlying connection delivers, in whatever chunks, contain no
  occurrence of the control magic. Then, for successive reads on a new control connection
  into buffers of any sizes: the bytes returned so far, followed by what the connection
  still holds as data and what the underlying connection has not delivered yet, are the
  stream, unchanged and in order; the data callback has been called once for every
  non-empty chunk forwarded so far, with its length, and with nothing else; an error is
  only end of file and is returned only after the whole stream; and as long as there is no
  error every read into a non-empty buffer returns at least one byte.
\<close>

theorem control_passthrough:
  assumes "\<not> sublist controlMagic (concat chunks)"
    and "Reads hm ns (NewControlConn chunks key h od w) = (out, e, c')"
  shows "out @ dataBuf c' @ concat (base c') = concat chunks
       \<and> (\<exists>used. chunks = used @ base c' \<and> world c' = reported od used w)
       \<and> (e \<noteq> None \<longrightarrow> e = Some EOF \<and> out = concat chunks)
       \<and> ((\<forall>n\<in>set ns. 0 < n) \<and> e = None \<longrightarrow> length ns \<le> length out)"
proof -
  let ?c = "NewControlConn chunks key h od w"
  have pt: "passthrough ?c" using assms(1) by (simp add: passthrough_def NewControlConn_def)
  have f: "dataBuf ?c = []" "base ?c = chunks" "onData ?c = od" "world ?c = w"
    by (simp_all add: NewControlConn_def)
  from Reads_passthrough [OF pt assms(2)] show ?thesis
    unfolding f by auto
qed

theorem control_passthrough_witness:
  "\<not> sublist controlMagic (concat [[1, 2], [], [3]])
   \<and> Reads toy_hmac [1, 5, 5, 5] (sample_ctl [[1, 2], [], [3]])
       = ([1, 2, 3], Some EOF, sample_ctl []\<lparr>world := [Data 2, Data 1]\<rparr>)
   \<and> reported (Some log_onData) [[1, 2], [], [3]] [] = [Data 2, Data 1]"
proof -
  have h1: "\<not> sublist controlMagic (concat [[1, 2], [], [3]])"
    by (simp add: controlMagic_def sublist_Cons_right)
  have ev: "Reads toy_hmac [1, 5, 5, 5] (NewControlConn [[1, 2], [], [3]] [1, 2, 3]
                (Some log_handler) (Some log_onData) [])
       = ([1, 2, 3], Some EOF, sample_ctl []\<lparr>world := [Data 2, Data 1]\<rparr>)"
    by (simp add: Read_def Read_loop.simps processBuffer.simps processBuffer_round_def
        appendData_def NewControlConn_def sample_ctl_def controlMagic_def log_onData_def Let_def)
  have "\<exists>used. [[1, 2], [], [3]] = used @ base (sample_ctl []\<lparr>world := [Data 2, Data 1]\<rparr>)
           \<and> world (sample_ctl []\<lparr>world := [Data 2, Data 1]\<rparr>)
               = reported (Some log_onData) used []"
    using control_passthrough [OF h1 ev] by blast
  then have "reported (Some log_onData) [[1, 2], [], [3]] [] = [Data 2, Data 1]"
    by (simp add: sample_ctl_def NewControlConn_def)
  then show ?thesis using h1 ev by (simp add: sample_ctl_def)
qed

end
